theory Spec2Isabelle
  imports Complex_Main "HOL-Library.Sublist" "HOL-Library.Log_Nat"
begin

section \<open>Python text\<close>

text \<open>
  A Python \<open>str\<close> is a sequence of Unicode code points. It is modelled as a list of
  natural numbers, one per code point, so that \<open>len\<close>, \<open>split\<close>, \<open>strip\<close>,
  \<open>startswith\<close> and \<open>endswith\<close> count what Python counts. A literal of the source
  is written \<open>u ''...''\<close>.
\<close>

type_synonym pystr = "nat list"

definition u :: "string \<Rightarrow> pystr" where
  "u s = map of_char s"

text \<open>The code points for which \<open>str.isspace\<close> holds; \<open>str.strip()\<close> removes exactly these.\<close>

definition isspace :: "nat \<Rightarrow> bool" where
  "isspace c \<longleftrightarrow>
     (9 \<le> c \<and> c \<le> 13) \<or> (28 \<le> c \<and> c \<le> 32) \<or> c = 133 \<or> c = 160 \<or> c = 5760 \<or>
     (8192 \<le> c \<and> c \<le> 8202) \<or> c = 8232 \<or> c = 8233 \<or> c = 8239 \<or> c = 8287 \<or> c = 12288"

definition strip :: "pystr \<Rightarrow> pystr" where
  "strip s = rev (dropWhile isspace (rev (dropWhile isspace s)))"

text \<open>\<open>s.split(c)\<close> for a one-character separator: always at least one token.\<close>

fun split :: "nat \<Rightarrow> pystr \<Rightarrow> pystr list" where
  "split c [] = [[]]"
| "split c (x # xs) =
     (if x = c then [] # split c xs
      else (case split c xs of [] \<Rightarrow> [[x]] | t # ts \<Rightarrow> (x # t) # ts))"

definition startswith :: "pystr \<Rightarrow> pystr \<Rightarrow> bool" where
  "startswith s p \<longleftrightarrow> prefix p s"

text \<open>\<open>s.endswith(t)\<close> for a tuple \<open>t\<close> of suffixes: some member is a suffix of \<open>s\<close>.\<close>

definition endswith :: "pystr \<Rightarrow> pystr list \<Rightarrow> bool" where
  "endswith s sufs \<longleftrightarrow> list_ex (\<lambda>suf. suffix suf s) sufs"

text \<open>\<open>s.replace(a, b)\<close> for one-character \<open>a\<close> and \<open>b\<close>.\<close>

definition replace :: "nat \<Rightarrow> nat \<Rightarrow> pystr \<Rightarrow> pystr" where
  "replace a b s = map (\<lambda>c. if c = a then b else c) s"

text \<open>\<open>str(n)\<close> for a non-negative integer: its decimal digits.\<close>

fun str_nat :: "nat \<Rightarrow> pystr" where
  "str_nat n = (if n < 10 then [48 + n] else str_nat (n div 10) @ [48 + n mod 10])"

declare str_nat.simps [simp del]

section \<open>Extension parsing (step 1 of the source)\<close>

text \<open>
  \<^verbatim>\<open>extensions = [ext.strip() for ext in extensions_str.split('|') if ext.strip()]\<close>
  \<^verbatim>\<open>target_extensions = tuple(f".{ext}" if not ext.startswith('.') else ext for ext in extensions)\<close>
\<close>

definition extensions_of :: "pystr \<Rightarrow> pystr list" where
  "extensions_of extensions_str =
     map strip (filter (\<lambda>ext. strip ext \<noteq> []) (split 124 extensions_str))"

definition add_dot :: "pystr \<Rightarrow> pystr" where
  "add_dot ext = (if \<not> startswith ext (u ''.'') then u ''.'' @ ext else ext)"

definition target_extensions_of :: "pystr list \<Rightarrow> pystr list" where
  "target_extensions_of extensions = map add_dot extensions"

text \<open>\<open>None\<close> is the branch \<open>if not extensions\<close>, which reports an error and returns.\<close>

definition parse_extensions :: "pystr \<Rightarrow> pystr list option" where
  "parse_extensions extensions_str =
     (let extensions = extensions_of extensions_str
      in if extensions = [] then None else Some (target_extensions_of extensions))"

text \<open>\<open>c.join(tokens)\<close> for a one-character separator, to state properties of parsing.\<close>

fun str_join :: "nat \<Rightarrow> pystr list \<Rightarrow> pystr" where
  "str_join c [] = []"
| "str_join c [t] = t"
| "str_join c (t # ts) = t @ [c] @ str_join c ts"

text \<open>
  Parsing as the specification words it: split on \<open>|\<close>, trim every token, discard the
  empty ones, prefix \<open>.\<close> to every token that does not start with it.
\<close>

definition spec_suffixes :: "pystr \<Rightarrow> pystr list" where
  "spec_suffixes extensions_str =
     map (\<lambda>t. if startswith t (u ''.'') then t else u ''.'' @ t)
       (filter (\<lambda>t. t \<noteq> []) (map strip (split 124 extensions_str)))"

section \<open>Double-precision arithmetic of the progress value\<close>

text \<open>
  \<^verbatim>\<open>progress_value = int((processed_files / total_files) * 100)\<close>
  divides two integers into a double, multiplies the double by 100 and truncates. Both
  operations round their exact result to the nearest double, ties to even. Doubles are
  modelled as the rationals they denote. The exponent range is not modelled: a Python
  list has fewer than \<open>2 ^ 63\<close> elements, so every quotient here lies in
  \<open>[2 ^ -63, 1]\<close> and every product in \<open>[0, 100]\<close>, far from overflow and underflow.
\<close>

text \<open>Rounding a rational to the nearest integer, ties to the even one.\<close>

definition rne :: "rat \<Rightarrow> int" where
  "rne x = (let f = \<lfloor>x\<rfloor>; r = x - of_int f
            in if r < 1 / 2 then f
               else if 1 / 2 < r then f + 1
               else if even f then f else f + 1)"

text \<open>\<open>ilog2 x\<close> is the integer \<open>k\<close> with \<open>2 ^ k \<le> x < 2 ^ (k + 1)\<close>, for positive \<open>x\<close>.\<close>

definition ilog2 :: "rat \<Rightarrow> int" where
  "ilog2 x = (let (p, q) = quotient_of x; d = bitlen p - bitlen q
              in if x < 2 powi d then d - 1 else d)"

text \<open>The double nearest to a non-negative rational: 53 significant bits.\<close>

definition fl :: "rat \<Rightarrow> rat" where
  "fl x = (if x \<le> 0 then 0
           else let e = ilog2 x - 52 in of_int (rne (x / 2 powi e)) * 2 powi e)"

datatype exn = UnicodeDecodeError pystr | ZeroDivisionError pystr | OtherException pystr

text \<open>\<open>str(e)\<close>, as the f-strings of the source format a caught exception.\<close>

fun exn_str :: "exn \<Rightarrow> pystr" where
  "exn_str (UnicodeDecodeError m) = m"
| "exn_str (ZeroDivisionError m) = m"
| "exn_str (OtherException m) = m"

text \<open>\<open>a / b\<close> on integers: true division, raising on a zero divisor.\<close>

definition truediv :: "nat \<Rightarrow> nat \<Rightarrow> exn + rat" where
  "truediv a b = (if b = 0 then Inl (ZeroDivisionError (u ''division by zero''))
                  else Inr (fl (of_nat a / of_nat b)))"

definition float_mul :: "rat \<Rightarrow> rat \<Rightarrow> rat" where
  "float_mul x y = fl (x * y)"

text \<open>\<open>int(x)\<close> on a float: truncation toward zero.\<close>

definition py_int :: "rat \<Rightarrow> int" where
  "py_int x = (if 0 \<le> x then \<lfloor>x\<rfloor> else \<lceil>x\<rceil>)"

definition progress_value :: "nat \<Rightarrow> nat \<Rightarrow> exn + int" where
  "progress_value processed_files total_files =
     (case truediv processed_files total_files of
        Inl e \<Rightarrow> Inl e
      | Inr q \<Rightarrow> Inr (py_int (float_mul q 100)))"

text \<open>
  Python's \<open>round(x)\<close> on a float (nearest integer, ties to even): what a progress value
  computed with \<open>round\<close> in place of \<open>int\<close> would be.
\<close>

definition rounded_progress :: "nat \<Rightarrow> nat \<Rightarrow> int" where
  "rounded_progress i n = rne (float_mul (fl (of_nat i / of_nat n)) 100)"

section \<open>The operating system, the callbacks and the output file\<close>

text \<open>
  The library calls of the source are parameters of the model: \<open>os.sep\<close>,
  \<open>os.path.isdir\<close>, \<open>os.walk\<close>, \<open>os.path.join\<close>, \<open>os.path.relpath\<close>, the outcome
  of opening and reading a file in a given encoding, and the outcomes of opening,
  writing and closing the output file.

  \<^item> \<open>walk\<close> is the list of \<open>(dirpath, filenames)\<close> that \<open>os.walk\<close> yields, in its
    order, or the exception that the iteration raises. \<open>os.walk\<close> skips the directories
    it cannot list, but it can still raise: up to Python 3.11 it recurses and raises
    \<open>RecursionError\<close> on a tree about a thousand levels deep.
  \<^item> A write is told the text that the stream has accepted so far and the data; \<open>None\<close>
    means that the call returns, \<open>Some e\<close> that it raises \<open>e\<close>. The stream is buffered:
    what it has accepted reaches the disk at some later flush, at the latest when the
    file is closed, so a full disk may show at a later write or only at the close.
  \<^item> \<open>left_on_disk\<close> is what the file holds once the stream is closed after a write or
    the close has raised, given the text accepted; nothing is assumed about it.

  What the model takes from its setting: the two callbacks return normally;
  \<open>os.path.relpath\<close> is defined on the paths that the walk yields; opening a file
  found by the walk, reading it entirely and closing it is one call with one outcome.
  The arguments are strings, so the handler of the first \<open>try\<close> of the source, which
  \<open>split\<close>, \<open>strip\<close> and \<open>startswith\<close> cannot reach, is not a branch of the model.
\<close>

datatype encoding = Utf8Sig | Latin1

record os_env =
  sep :: nat
  isdir :: "pystr \<Rightarrow> bool"
  walk :: "pystr \<Rightarrow> exn + (pystr \<times> pystr list) list"
  path_join :: "pystr \<Rightarrow> pystr \<Rightarrow> pystr"
  relpath :: "pystr \<Rightarrow> pystr \<Rightarrow> pystr"
  read_file :: "pystr \<Rightarrow> encoding \<Rightarrow> exn + pystr"
  open_w :: "pystr \<Rightarrow> exn option"
  write_w :: "pystr \<Rightarrow> pystr \<Rightarrow> exn option"
  close_w :: "pystr \<Rightarrow> exn option"
  left_on_disk :: "pystr \<Rightarrow> pystr"

text \<open>
  What a run does, in order: the calls of the two callbacks, the start of the directory
  scan, the opening of the output file, the writes that returned, and the closing.
\<close>

datatype event =
  Log pystr | Progress int | Walk pystr | OpenW pystr | Write pystr | CloseW

text \<open>
  What a run leaves behind: its events and the content of the file at \<open>output_file\<close>
  (\<open>None\<close>: there is no such file). The content is text; the file holds its UTF-8
  encoding. Likewise the outcome of a read is the text that \<open>f.read()\<close> returns.
\<close>

record world =
  trace :: "event list"
  out_file :: "pystr option"

text \<open>
  The state threaded through a run has the stream \<open>outfile\<close> as well: the text it has
  accepted since it was opened, and whether every write so far has returned. Opening
  truncates the file. Between the opening and the closing the model does not follow
  what the buffer has flushed: \<open>out_file\<close> is set again when the stream is closed.
\<close>

record state = world +
  accepted :: pystr
  intact :: bool

text \<open>A statement either raises (\<open>Inl\<close>) or completes (\<open>Inr\<close>), and changes the state.\<close>

type_synonym 'a action = "state \<Rightarrow> (exn + 'a) \<times> state"

definition act_bind :: "'a action \<Rightarrow> ('a \<Rightarrow> 'b action) \<Rightarrow> 'b action" where
  "act_bind m f = (\<lambda>s. case m s of (Inl e, s') \<Rightarrow> (Inl e, s') | (Inr x, s') \<Rightarrow> f x s')"

definition act_seq :: "'a action \<Rightarrow> 'b action \<Rightarrow> 'b action" where
  "act_seq m n = act_bind m (\<lambda>_. n)"

text \<open>\<open>try: m  except Exception as e: h e\<close>\<close>

definition act_try :: "'a action \<Rightarrow> (exn \<Rightarrow> 'a action) \<Rightarrow> 'a action" where
  "act_try m h = (\<lambda>s. case m s of (Inl e, s') \<Rightarrow> h e s' | (Inr x, s') \<Rightarrow> (Inr x, s'))"

definition act_of :: "exn + 'a \<Rightarrow> 'a action" where
  "act_of r = (\<lambda>s. (r, s))"

definition emit :: "event \<Rightarrow> unit action" where
  "emit ev = (\<lambda>s. (Inr (), s\<lparr>trace := trace s @ [ev]\<rparr>))"

definition log_callback :: "pystr \<Rightarrow> unit action" where
  "log_callback msg = emit (Log msg)"

definition progress_callback :: "int \<Rightarrow> unit action" where
  "progress_callback v = emit (Progress v)"

text \<open>\<open>outfile.write(data)\<close>\<close>

definition outfile_write :: "os_env \<Rightarrow> pystr \<Rightarrow> unit action" where
  "outfile_write env data = (\<lambda>s.
     case write_w env (accepted s) data of
       Some e \<Rightarrow> (Inl e, s\<lparr>intact := False\<rparr>)
     | None \<Rightarrow> (Inr (), s\<lparr>trace := trace s @ [Write data],
                             accepted := accepted s @ data\<rparr>))"

text \<open>\<open>with open(full_path, 'r', encoding=enc) as f: content = f.read()\<close>\<close>

definition read_content :: "os_env \<Rightarrow> pystr \<Rightarrow> encoding \<Rightarrow> pystr action" where
  "read_content env full_path enc = act_of (read_file env full_path enc)"

text \<open>
  \<open>with open(output_file, 'w', encoding='utf-8') as outfile: body\<close>. Opening truncates
  the file; leaving the block closes the stream, whether the body raised or not, and an
  exception raised by the close is the one that leaves the block. When every write and
  the close have returned, the file holds the text accepted; otherwise it holds what
  the environment says was left on the disk.
\<close>

definition with_outfile :: "os_env \<Rightarrow> pystr \<Rightarrow> unit action \<Rightarrow> unit action" where
  "with_outfile env output_file body = (\<lambda>s.
     case open_w env output_file of
       Some e \<Rightarrow> (Inl e, s)
     | None \<Rightarrow>
         (case body (s\<lparr>trace := trace s @ [OpenW output_file], out_file := Some [],
                        accepted := [], intact := True\<rparr>) of
            (r, s1) \<Rightarrow>
              (case close_w env (accepted s1) of
                 None \<Rightarrow>
                   (r, s1\<lparr>trace := trace s1 @ [CloseW],
                          out_file := Some (if intact s1 then accepted s1
                                            else left_on_disk env (accepted s1))\<rparr>)
               | Some e \<Rightarrow>
                   (Inl e, s1\<lparr>trace := trace s1 @ [CloseW],
                              out_file := Some (left_on_disk env (accepted s1))\<rparr>))))"

section \<open>The collector\<close>

text \<open>
  Step 2 of the source: the pre-scan. It stands outside every \<open>try\<close>, so an exception
  of the walk leaves the function.
\<close>

definition files_to_process_of :: "os_env \<Rightarrow> pystr \<Rightarrow> pystr list \<Rightarrow> exn + pystr list" where
  "files_to_process_of env root_dir target_extensions =
     (case walk env root_dir of
        Inl e \<Rightarrow> Inl e
      | Inr dirs \<Rightarrow>
          Inr (concat (map (\<lambda>(dirpath, filenames).
                              map (path_join env dirpath)
                                (filter (\<lambda>filename. endswith filename target_extensions)
                                   filenames))
                           dirs)))"

definition relative_path_of :: "os_env \<Rightarrow> pystr \<Rightarrow> pystr \<Rightarrow> pystr" where
  "relative_path_of env full_path root_dir =
     replace (sep env) 47 (relpath env full_path root_dir)"

text \<open>
  The \<open>try\<close> statement of lines 70 to 88: the content of the file, read as UTF-8 or,
  after a \<open>UnicodeDecodeError\<close>, as Latin-1, or an error marker.
\<close>

definition copy_content :: "os_env \<Rightarrow> pystr \<Rightarrow> pystr \<Rightarrow> unit action" where
  "copy_content env full_path relative_path =
     act_try
       (act_bind (read_content env full_path Utf8Sig) (outfile_write env))
       (\<lambda>e. case e of
          UnicodeDecodeError _ \<Rightarrow>
            act_try
              (act_seq (act_bind (read_content env full_path Latin1) (outfile_write env))
              (act_seq (outfile_write env
                          ([10] @ u ''[Warning: File read with latin-1 encoding]'' @ [10]))
                       (log_callback (u ''Warning: '' @ relative_path @
                          u '' read with latin-1 due to UTF-8 decoding error.''))))
              (\<lambda>e_fallback.
                 act_seq (outfile_write env
                            ([10] @ u ''[Error: Unable to read file '' @ relative_path @
                             u '' - '' @ exn_str e_fallback @ u '']'' @ [10]))
                         (log_callback (u ''Read error '' @ relative_path @ u '': '' @
                            exn_str e_fallback)))
        | _ \<Rightarrow>
            act_seq (outfile_write env
                       ([10] @ u ''[Error: Unable to process file '' @ relative_path @
                        u '' - '' @ exn_str e @ u '']'' @ [10]))
                    (log_callback (u ''Processing error '' @ relative_path @ u '': '' @
                       exn_str e)))"

text \<open>The body of the loop after the progress update: lines 64 to 90 of the source.\<close>

definition write_entry :: "os_env \<Rightarrow> pystr \<Rightarrow> pystr \<Rightarrow> unit action" where
  "write_entry env root_dir full_path =
     (let relative_path = relative_path_of env full_path root_dir;
          header = relative_path @ u ''-------------'' @ [10]
      in act_seq (outfile_write env header)
        (act_seq (log_callback (u ''Processing: '' @ relative_path))
        (act_seq (copy_content env full_path relative_path)
                 (outfile_write env [10, 10]))))"

text \<open>
  The loop \<open>for full_path in files_to_process\<close>, with the counter \<open>processed_files\<close>
  as an argument: the counter is incremented and the progress value is computed and
  reported first, then the entry is written.
\<close>

fun process_files :: "os_env \<Rightarrow> pystr \<Rightarrow> nat \<Rightarrow> nat \<Rightarrow> pystr list \<Rightarrow> unit action" where
  "process_files env root_dir total_files processed_files [] = act_of (Inr ())"
| "process_files env root_dir total_files processed_files (full_path # rest) =
     act_seq
       (act_bind (act_of (progress_value (processed_files + 1) total_files)) progress_callback)
       (act_seq (write_entry env root_dir full_path)
                (process_files env root_dir total_files (processed_files + 1) rest))"

definition collect_files_content_gui ::
    "os_env \<Rightarrow> pystr \<Rightarrow> pystr \<Rightarrow> pystr \<Rightarrow> unit action" where
  "collect_files_content_gui env root_dir output_file extensions_str =
     (if \<not> isdir env root_dir then
        act_seq (log_callback (u ''Error: Directory '' @ [39] @ root_dir @ [39] @ u '' not found.''))
                (progress_callback (- 1))
      else case parse_extensions extensions_str of
        None \<Rightarrow>
          act_seq (log_callback (u ''Error: No valid file extensions provided.''))
                  (progress_callback (- 1))
      | Some target_extensions \<Rightarrow>
          act_seq (emit (Walk root_dir))
            (act_bind (act_of (files_to_process_of env root_dir target_extensions))
               (\<lambda>files_to_process.
                  let total_files = length files_to_process
                  in if total_files = 0 then
                       act_seq (log_callback (u ''No files with extension(s) '' @
                                  extensions_str @ u '' found in '' @ [39] @ root_dir @ [39] @
                                  u ''.''))
                               (progress_callback 100)
                     else
                       act_try
                         (act_seq
                            (with_outfile env output_file
                               (process_files env root_dir total_files 0 files_to_process))
                            (act_seq
                               (log_callback ([10] @ u ''Successfully collected content from '' @
                                  str_nat total_files @ u '' files to '' @ [39] @ output_file @
                                  [39]))
                               (progress_callback 100)))
                         (\<lambda>e. act_seq
                                 (log_callback
                                    (u ''Error occurred while writing to output file: '' @
                                     exn_str e))
                                 (progress_callback (- 1))))))"

text \<open>
  A run starts with no event, no stream and the output file as it is found. Its result
  is what the call returns or raises, with the events and the output file it leaves.
\<close>

definition run :: "os_env \<Rightarrow> pystr \<Rightarrow> pystr \<Rightarrow> pystr \<Rightarrow> pystr option \<Rightarrow> (exn + unit) \<times> world" where
  "run env root_dir output_file extensions_str before =
     (case collect_files_content_gui env root_dir output_file extensions_str
             \<lparr>trace = [], out_file = before, accepted = [], intact = True\<rparr> of
        (r, s) \<Rightarrow> (r, \<lparr>trace = trace s, out_file = out_file s\<rparr>))"

definition progress_events :: "event list \<Rightarrow> int list" where
  "progress_events evs = concat (map (\<lambda>ev. case ev of Progress v \<Rightarrow> [v] | _ \<Rightarrow> []) evs)"

definition written :: "event list \<Rightarrow> pystr" where
  "written evs = concat (concat (map (\<lambda>ev. case ev of Write d \<Rightarrow> [d] | _ \<Rightarrow> []) evs))"

section \<open>Auxiliary notions for the proofs\<close>

text \<open>
  \<open>grows A s s'\<close>: from \<open>s\<close> to \<open>s'\<close> the trace was extended by events of \<open>A\<close>
  only, the stream has accepted exactly the data of the \<open>Write\<close> events among them,
  and the file on the disk is as it was.
\<close>

definition grows :: "event set \<Rightarrow> state \<Rightarrow> state \<Rightarrow> bool" where
  "grows A s s' \<longleftrightarrow>
     (\<exists>evs. trace s' = trace s @ evs \<and> set evs \<subseteq> A \<and>
            accepted s' = accepted s @ written evs \<and> out_file s' = out_file s)"

text \<open>\<open>stable R m\<close>: every execution of the statement \<open>m\<close> relates its two states by \<open>R\<close>.\<close>

definition stable :: "(state \<Rightarrow> state \<Rightarrow> bool) \<Rightarrow> 'a action \<Rightarrow> bool" where
  "stable R m \<longleftrightarrow> (\<forall>s r s'. m s = (r, s') \<longrightarrow> R s s')"

text \<open>The texts that an entry is made of, for a file with the given relative path.\<close>

definition header_line :: "pystr \<Rightarrow> pystr" where
  "header_line relative_path = relative_path @ u ''-------------'' @ [10]"

definition processing_log :: "pystr \<Rightarrow> pystr" where
  "processing_log relative_path = u ''Processing: '' @ relative_path"

definition warning_line :: pystr where
  "warning_line = [10] @ u ''[Warning: File read with latin-1 encoding]'' @ [10]"

definition warning_log :: "pystr \<Rightarrow> pystr" where
  "warning_log relative_path =
     u ''Warning: '' @ relative_path @ u '' read with latin-1 due to UTF-8 decoding error.''"

definition read_marker :: "pystr \<Rightarrow> exn \<Rightarrow> pystr" where
  "read_marker relative_path e =
     [10] @ u ''[Error: Unable to read file '' @ relative_path @ u '' - '' @ exn_str e @
     u '']'' @ [10]"

definition read_log :: "pystr \<Rightarrow> exn \<Rightarrow> pystr" where
  "read_log relative_path e = u ''Read error '' @ relative_path @ u '': '' @ exn_str e"

definition process_marker :: "pystr \<Rightarrow> exn \<Rightarrow> pystr" where
  "process_marker relative_path e =
     [10] @ u ''[Error: Unable to process file '' @ relative_path @ u '' - '' @ exn_str e @
     u '']'' @ [10]"

definition process_log :: "pystr \<Rightarrow> exn \<Rightarrow> pystr" where
  "process_log relative_path e = u ''Processing error '' @ relative_path @ u '': '' @ exn_str e"

text \<open>
  \<open>utf8_raises env full_path e\<close>: reading the file as UTF-8 and writing what was read
  can raise \<open>e\<close>, from the read or from the write. \<open>latin1_raises\<close>: the same for the
  Latin-1 attempt.
\<close>

definition utf8_raises :: "os_env \<Rightarrow> pystr \<Rightarrow> exn \<Rightarrow> bool" where
  "utf8_raises env full_path e \<longleftrightarrow>
     read_file env full_path Utf8Sig = Inl e \<or>
     (\<exists>content a. read_file env full_path Utf8Sig = Inr content \<and>
                  write_w env a content = Some e)"

definition latin1_raises :: "os_env \<Rightarrow> pystr \<Rightarrow> exn \<Rightarrow> bool" where
  "latin1_raises env full_path e \<longleftrightarrow>
     read_file env full_path Latin1 = Inl e \<or>
     (\<exists>content a. read_file env full_path Latin1 = Inr content \<and>
                  write_w env a content = Some e)"

text \<open>
  \<open>entry_body env root_dir full_path body\<close>: the events \<open>body\<close> are what a completed
  \<open>try\<close> statement of lines 70 to 88 leaves for the file. They are one of:
  the write of the content read as UTF-8; after a \<open>UnicodeDecodeError\<close>, the write of
  the content read as Latin-1, the write of the warning line and the warning log line;
  the same with the marker \<open>Unable to read file\<close> and its log line in place of a
  warning line whose write raised; that marker and its log line alone, when the Latin-1
  attempt raised; the marker \<open>Unable to process file\<close> and its log line, when the
  UTF-8 attempt raised anything but a \<open>UnicodeDecodeError\<close>.
\<close>

definition entry_body :: "os_env \<Rightarrow> pystr \<Rightarrow> pystr \<Rightarrow> event list \<Rightarrow> bool" where
  "entry_body env root_dir full_path body \<longleftrightarrow>
     (\<exists>content. read_file env full_path Utf8Sig = Inr content \<and> body = [Write content]) \<or>
     ((\<exists>m. utf8_raises env full_path (UnicodeDecodeError m)) \<and>
      ((\<exists>content. read_file env full_path Latin1 = Inr content \<and>
          body = [Write content, Write warning_line,
                  Log (warning_log (relative_path_of env full_path root_dir))]) \<or>
       (\<exists>content e a. read_file env full_path Latin1 = Inr content \<and>
          write_w env a warning_line = Some e \<and>
          body = [Write content,
                  Write (read_marker (relative_path_of env full_path root_dir) e),
                  Log (read_log (relative_path_of env full_path root_dir) e)]) \<or>
       (\<exists>e. latin1_raises env full_path e \<and>
          body = [Write (read_marker (relative_path_of env full_path root_dir) e),
                  Log (read_log (relative_path_of env full_path root_dir) e)]))) \<or>
     (\<exists>e. utf8_raises env full_path e \<and> (\<forall>m. e \<noteq> UnicodeDecodeError m) \<and>
        body = [Write (process_marker (relative_path_of env full_path root_dir) e),
                Log (process_log (relative_path_of env full_path root_dir) e)])"

text \<open>
  \<open>iteration_shape env root_dir total_files i full_path seg\<close>: the events \<open>seg\<close> are
  those of a completed loop iteration, number \<open>i\<close>, for \<open>full_path\<close>. They are, in
  this order: the progress value of the file, the write of the header, the log line
  \<open>Processing: \<dots>\<close>, the content or error marker as \<open>entry_body\<close> describes it, and
  the write of the separator.
\<close>

definition iteration_shape ::
    "os_env \<Rightarrow> pystr \<Rightarrow> nat \<Rightarrow> nat \<Rightarrow> pystr \<Rightarrow> event list \<Rightarrow> bool" where
  "iteration_shape env root_dir total_files i full_path seg \<longleftrightarrow>
     (\<exists>v body.
        progress_value i total_files = Inr v \<and>
        entry_body env root_dir full_path body \<and>
        seg = [Progress v,
               Write (header_line (relative_path_of env full_path root_dir)),
               Log (processing_log (relative_path_of env full_path root_dir))] @
              body @ [Write [10, 10]])"

text \<open>
  \<open>broken_iteration env root_dir total_files i full_path seg\<close>: the events \<open>seg\<close> are
  those of iteration number \<open>i\<close> when a write raises at the outer level and ends the
  loop: an initial part of the sequence above, cut before the header, before an error
  marker (with or without the Latin-1 content written), or before the separator.
\<close>

definition broken_iteration ::
    "os_env \<Rightarrow> pystr \<Rightarrow> nat \<Rightarrow> nat \<Rightarrow> pystr \<Rightarrow> event list \<Rightarrow> bool" where
  "broken_iteration env root_dir total_files i full_path seg \<longleftrightarrow>
     (\<exists>v. progress_value i total_files = Inr v \<and>
        (seg = [Progress v] \<or>
         seg = [Progress v,
                Write (header_line (relative_path_of env full_path root_dir)),
                Log (processing_log (relative_path_of env full_path root_dir))] \<or>
         (\<exists>content. read_file env full_path Latin1 = Inr content \<and>
            seg = [Progress v,
                   Write (header_line (relative_path_of env full_path root_dir)),
                   Log (processing_log (relative_path_of env full_path root_dir)),
                   Write content]) \<or>
         (\<exists>body. entry_body env root_dir full_path body \<and>
            seg = [Progress v,
                   Write (header_line (relative_path_of env full_path root_dir)),
                   Log (processing_log (relative_path_of env full_path root_dir))] @ body)))"

text \<open>
  The events of one entry when every write to the output file succeeds: the header, the
  log line, the content or the marker that the outcome of the two reads selects, and
  the separator.
\<close>

definition entry_events :: "os_env \<Rightarrow> pystr \<Rightarrow> pystr \<Rightarrow> event list" where
  "entry_events env root_dir full_path =
     (let relative_path = relative_path_of env full_path root_dir
      in [Write (relative_path @ u ''-------------'' @ [10]),
          Log (u ''Processing: '' @ relative_path)] @
         (case read_file env full_path Utf8Sig of
            Inr content \<Rightarrow> [Write content]
          | Inl (UnicodeDecodeError _) \<Rightarrow>
              (case read_file env full_path Latin1 of
                 Inr content \<Rightarrow>
                   [Write content,
                    Write ([10] @ u ''[Warning: File read with latin-1 encoding]'' @ [10]),
                    Log (u ''Warning: '' @ relative_path @
                         u '' read with latin-1 due to UTF-8 decoding error.'')]
               | Inl e_fallback \<Rightarrow>
                   [Write ([10] @ u ''[Error: Unable to read file '' @ relative_path @
                           u '' - '' @ exn_str e_fallback @ u '']'' @ [10]),
                    Log (u ''Read error '' @ relative_path @ u '': '' @ exn_str e_fallback)])
          | Inl e \<Rightarrow>
              [Write ([10] @ u ''[Error: Unable to process file '' @ relative_path @
                      u '' - '' @ exn_str e @ u '']'' @ [10]),
               Log (u ''Processing error '' @ relative_path @ u '': '' @ exn_str e)]) @
         [Write [10, 10]])"

text \<open>The progress values of the loop iterations \<open>processed_files + 1, \<dots>\<close>, in order.\<close>

fun loop_progress :: "nat \<Rightarrow> nat \<Rightarrow> nat \<Rightarrow> (exn + int) list" where
  "loop_progress total_files processed_files 0 = []"
| "loop_progress total_files processed_files (Suc k) =
     progress_value (processed_files + 1) total_files #
     loop_progress total_files (processed_files + 1) k"

text \<open>
  The events of the whole loop when every write succeeds: for each file its progress
  value, then its entry.
\<close>

fun loop_events :: "os_env \<Rightarrow> pystr \<Rightarrow> nat \<Rightarrow> nat \<Rightarrow> pystr list \<Rightarrow> event list" where
  "loop_events env root_dir total_files processed_files [] = []"
| "loop_events env root_dir total_files processed_files (full_path # rest) =
     (case progress_value (processed_files + 1) total_files of
        Inr v \<Rightarrow> [Progress v] | Inl _ \<Rightarrow> []) @
     entry_events env root_dir full_path @
     loop_events env root_dir total_files (processed_files + 1) rest"

section \<open>Example environments\<close>

text \<open>
  A POSIX system whose directory \<open>/R\<close> holds the given files and no subdirectory; each
  file is given by its name and the outcomes of reading it as UTF-8 and as Latin-1.
  Opening, writing and closing the output file succeed.
\<close>

definition flat_env :: "(pystr \<times> (exn + pystr) \<times> (exn + pystr)) list \<Rightarrow> os_env" where
  "flat_env files =
     \<lparr>sep = 47,
      isdir = (\<lambda>p. p = u ''/R''),
      walk = (\<lambda>p. Inr [(p, map fst files)]),
      path_join = (\<lambda>a b. a @ [47] @ b),
      relpath = (\<lambda>p start. drop (length start + 1) p),
      read_file = (\<lambda>p enc. case map_of files (drop 3 p) of
                     None \<Rightarrow> Inl (OtherException (u ''No such file or directory''))
                   | Some (r8, r1) \<Rightarrow> (case enc of Utf8Sig \<Rightarrow> r8 | Latin1 \<Rightarrow> r1)),
      open_w = (\<lambda>p. None),
      write_w = (\<lambda>c d. None),
      close_w = (\<lambda>c. None),
      left_on_disk = (\<lambda>c. [])\<rparr>"

text \<open>
  Three files under \<open>/R\<close>. The second one holds the single byte \<open>0xFF\<close>, which is
  not valid UTF-8 and is the code point 255 in Latin-1.
\<close>

definition three_files :: "(pystr \<times> (exn + pystr) \<times> (exn + pystr)) list" where
  "three_files =
     [(u ''a.txt'', Inr (u ''A''), Inr (u ''A'')),
      (u ''b.txt'',
       Inl (UnicodeDecodeError ([39] @ u ''utf-8'' @ [39] @ u '' codec can'' @ [39] @
              u ''t decode byte 0xff in position 0: invalid start byte'')),
       Inr [255]),
      (u ''c.txt'', Inr (u ''C''), Inr (u ''C''))]"

text \<open>The 101 files \<open>0.txt\<close>, \<dots>, \<open>100.txt\<close> under \<open>/R\<close>, all empty.\<close>

definition many_files :: "(pystr \<times> (exn + pystr) \<times> (exn + pystr)) list" where
  "many_files = map (\<lambda>i. (str_nat i @ u ''.txt'', Inr [], Inr [])) [0..<101]"

text \<open>
  A full disk. The stream takes 8192 characters into its buffer before it flushes, and
  then the flush raises; nothing reaches the disk, and the close raises as well.
\<close>

definition no_space :: exn where
  "no_space = OtherException (u ''[Errno 28] No space left on device'')"

definition on_full_disk :: "os_env \<Rightarrow> os_env" where
  "on_full_disk env =
     env\<lparr>write_w := (\<lambda>a d. if 8192 \<le> length a + length d then Some no_space else None),
         close_w := (\<lambda>a. Some no_space),
         left_on_disk := (\<lambda>a. [])\<rparr>"

text \<open>
  Two files under \<open>/R\<close>, the first of 8160 characters: on a full disk the header of the
  second file is the write that raises.
\<close>

definition long_content :: pystr where
  "long_content = replicate 8160 65"

definition two_files :: "(pystr \<times> (exn + pystr) \<times> (exn + pystr)) list" where
  "two_files =
     [(u ''a.txt'', Inr long_content, Inr long_content),
      (u ''b.txt'', Inr (u ''B''), Inr (u ''B''))]"

text \<open>The three files again, with an output file that cannot be opened for writing.\<close>

definition read_only_env :: os_env where
  "read_only_env =
     (flat_env three_files)\<lparr>open_w :=
        (\<lambda>p. Some (OtherException (u ''[Errno 13] Permission denied'')))\<rparr>"

text \<open>
  A tree under \<open>/R\<close> too deep for the recursion of \<open>os.walk\<close> (Python 3.11).
\<close>

definition deep_tree_env :: os_env where
  "deep_tree_env =
     (flat_env [])\<lparr>walk :=
        (\<lambda>p. Inl (OtherException
                 (u ''maximum recursion depth exceeded while calling a Python object'')))\<rparr>"

section \<open>Facts about the double-precision arithmetic\<close>

lemma rne_of_int: "rne (of_int m) = m"
  by (simp add: rne_def)

lemma rne_ge_floor: "\<lfloor>x\<rfloor> \<le> rne x"
  by (simp add: rne_def Let_def)

lemma rne_le_floor1: "rne x \<le> \<lfloor>x\<rfloor> + 1"
  by (simp add: rne_def Let_def)

lemma rne_mono: assumes "x \<le> y" shows "rne x \<le> rne y"
proof (cases "\<lfloor>x\<rfloor> = \<lfloor>y\<rfloor>")
  case True
  then show ?thesis using assms by (auto simp: rne_def Let_def)
next
  case False
  then have "\<lfloor>x\<rfloor> < \<lfloor>y\<rfloor>" using assms floor_mono[OF assms] by linarith
  then show ?thesis using rne_le_floor1[of x] rne_ge_floor[of y] by linarith
qed

lemma rne_near: assumes "\<bar>x - of_int m\<bar> < 1 / 2" shows "rne x = m"
proof -
  consider "of_int m \<le> x" | "x < of_int m" by linarith
  then show ?thesis
  proof cases
    case 1
    then have "\<lfloor>x\<rfloor> = m" using assms by (intro floor_unique) (auto simp: abs_less_iff)
    then show ?thesis using assms 1 by (auto simp: rne_def Let_def abs_less_iff)
  next
    case 2
    then have "\<lfloor>x\<rfloor> = m - 1" using assms by (intro floor_unique) (auto simp: abs_less_iff)
    then show ?thesis using assms 2 by (auto simp: rne_def Let_def abs_less_iff)
  qed
qed

lemma pow2_pos: "(0::rat) < 2 powi k"
  by (simp add: zero_less_power_int)

lemma bitlen_rat_bounds:
  assumes "0 < p"
  shows "(2::rat) powi (bitlen p - 1) \<le> of_int p" "of_int p < (2::rat) powi (bitlen p)"
proof -
  from bitlen_bounds[OF assms] have a: "2 ^ nat (bitlen p - 1) \<le> p" and b: "p < 2 ^ nat (bitlen p)"
    by auto
  have ge: "1 \<le> bitlen p" using assms by (auto simp: bitlen_alt_def)
  have "(2::rat) powi (bitlen p - 1) = 2 ^ nat (bitlen p - 1)"
    using ge by (simp add: power_int_def)
  also have "\<dots> = of_int (2 ^ nat (bitlen p - 1))" by simp
  also have "\<dots> \<le> of_int p" using a by (simp only: of_int_le_iff)
  finally show "(2::rat) powi (bitlen p - 1) \<le> of_int p" .
  have "(of_int p :: rat) < of_int (2 ^ nat (bitlen p))" using b by (simp only: of_int_less_iff)
  also have "\<dots> = 2 powi (bitlen p)" using ge by (simp add: power_int_def)
  finally show "of_int p < (2::rat) powi (bitlen p)" .
qed

lemma ilog2_bounds:
  assumes "0 < x"
  shows "2 powi (ilog2 x) \<le> x \<and> x < 2 powi (ilog2 x + 1)"
proof -
  obtain p q where pq: "quotient_of x = (p, q)" by (cases "quotient_of x")
  have q: "0 < q" using quotient_of_denom_pos[OF pq] .
  have x: "x = of_int p / of_int q" using quotient_of_div[OF pq] .
  have p: "0 < p" using assms q x by (simp add: zero_less_divide_iff)
  define d where "d = bitlen p - bitlen q"
  note bp = bitlen_rat_bounds[OF p] 
  note bq = bitlen_rat_bounds[OF q]
  have qr: "(0::rat) < of_int q" using q by simp
  have "2 powi (d - 1) * of_int q < (2::rat) powi (d - 1) * 2 powi (bitlen q)"
    using bq(2) pow2_pos by (simp add: mult_strict_left_mono)
  also have "\<dots> = 2 powi (bitlen p - 1)"
    by (simp add: d_def power_int_add[symmetric])
  also have "\<dots> \<le> of_int p" using bp(1) .
  finally have lo: "2 powi (d - 1) < x" using qr by (simp add: x pos_less_divide_eq)
  have "of_int p < (2::rat) powi (bitlen p)" using bp(2) .
  also have "\<dots> = 2 powi (d + 1) * 2 powi (bitlen q - 1)"
    by (simp add: d_def power_int_add[symmetric])
  also have "\<dots> \<le> 2 powi (d + 1) * of_int q"
    using bq(1) pow2_pos[of "d+1"] by (simp add: mult_left_mono)
  finally have hi: "x < 2 powi (d + 1)" using qr by (simp add: x pos_divide_less_eq)
  have il: "ilog2 x = (if x < 2 powi d then d - 1 else d)"
    by (simp add: ilog2_def pq d_def Let_def)
  show ?thesis using lo hi by (auto simp: il)
qed

lemma pow2_mono: "a \<le> b \<Longrightarrow> (2::rat) powi a \<le> 2 powi b"
  by (simp add: power_int_increasing)

lemma pow2_less_imp: "(2::rat) powi a < 2 powi b \<Longrightarrow> a < b"
  using pow2_mono[of b a] by (cases "a < b") auto

lemma ilog2_unique:
  assumes "2 powi k \<le> x" "x < 2 powi (k + 1)"
  shows "ilog2 x = k"
proof -
  have x: "0 < x" using pow2_pos[of k] assms(1) by linarith
  from ilog2_bounds[OF x] have a: "2 powi ilog2 x \<le> x" and b: "x < 2 powi (ilog2 x + 1)" by auto
  have "(2::rat) powi k < 2 powi (ilog2 x + 1)" using assms(1) b by linarith
  then have "k < ilog2 x + 1" by (rule pow2_less_imp)
  moreover have "(2::rat) powi ilog2 x < 2 powi (k + 1)" using assms(2) a by linarith
  then have "ilog2 x < k + 1" by (rule pow2_less_imp)
  ultimately show ?thesis by linarith
qed

lemma ilog2_mono: assumes "0 < x" "x \<le> y" shows "ilog2 x \<le> ilog2 y"
proof -
  have y: "0 < y" using assms by linarith
  have "(2::rat) powi ilog2 x < 2 powi (ilog2 y + 1)"
    using ilog2_bounds[OF assms(1)] ilog2_bounds[OF y] assms(2) by linarith
  then show ?thesis using pow2_less_imp by fastforce
qed

subsection \<open>Rounding is monotone\<close>

lemma pow2_add1: "(2::rat) powi (k + 1) = 2 * 2 powi k"
  using power_int_add[of "2::rat" k 1] by simp

lemma fl_eq:
  assumes "2 powi k \<le> x" "x < 2 powi (k + 1)"
  shows "fl x = of_int (rne (x / 2 powi (k - 52))) * 2 powi (k - 52)"
proof -
  have x: "0 < x" using pow2_pos[of k] assms(1) by linarith
  show ?thesis using x ilog2_unique[OF assms] by (simp add: fl_def Let_def)
qed

lemma fl_val:
  assumes "2 powi k \<le> x" "x < 2 powi (k + 1)" "\<bar>x / 2 powi (k - 52) - of_int m\<bar> < 1 / 2"
  shows "fl x = of_int m * 2 powi (k - 52)"
  using fl_eq[OF assms(1,2)] rne_near[OF assms(3)] by simp

lemma mant_bounds:
  assumes "0 < x"
  shows "2 ^ 52 \<le> rne (x / 2 powi (ilog2 x - 52))" "rne (x / 2 powi (ilog2 x - 52)) \<le> 2 ^ 53"
proof -
  let ?e = "ilog2 x - 52"
  from ilog2_bounds[OF assms] have a: "2 powi ilog2 x \<le> x" and b: "x < 2 powi (ilog2 x + 1)" by auto
  have e1: "(2::rat) powi ilog2 x = 2 ^ 52 * 2 powi ?e"
    by (simp add: power_int_diff)
  have e2: "(2::rat) powi (ilog2 x + 1) = 2 ^ 53 * 2 powi ?e"
    by (simp add: power_int_diff power_int_add)
  have lo: "of_int (2 ^ 52) \<le> x / 2 powi ?e"
    using a pow2_pos[of ?e] by (simp add: e1 pos_le_divide_eq)
  have hi: "x / 2 powi ?e \<le> of_int (2 ^ 53)"
    using b pow2_pos[of ?e] by (simp add: e2 pos_divide_le_eq)
  show "2 ^ 52 \<le> rne (x / 2 powi ?e)" using rne_mono[OF lo] by (simp only: rne_of_int)
  show "rne (x / 2 powi ?e) \<le> 2 ^ 53" using rne_mono[OF hi] by (simp only: rne_of_int)
qed

lemma fl_nonneg: "0 \<le> fl x"
proof (cases "x \<le> 0")
  case True then show ?thesis by (simp add: fl_def)
next
  case False
  then have x: "0 < x" by simp
  have "(0::int) \<le> 2 ^ 52" by simp
  then have "0 \<le> rne (x / 2 powi (ilog2 x - 52))" using mant_bounds(1)[OF x] by linarith
  then show ?thesis using x pow2_pos[of "ilog2 x - 52"] by (simp add: fl_def Let_def)
qed

lemma fl_mono: assumes "x \<le> y" shows "fl x \<le> fl y"
proof (cases "x \<le> 0")
  case True then show ?thesis using fl_nonneg[of y] by (simp add: fl_def)
next
  case False
  then have x: "0 < x" by simp
  then have y: "0 < y" using assms by linarith
  let ?ex = "ilog2 x - 52" and ?ey = "ilog2 y - 52"
  have fx: "fl x = of_int (rne (x / 2 powi ?ex)) * 2 powi ?ex" using x by (simp add: fl_def Let_def)
  have fy: "fl y = of_int (rne (y / 2 powi ?ey)) * 2 powi ?ey" using y by (simp add: fl_def Let_def)
  have le: "ilog2 x \<le> ilog2 y" using ilog2_mono[OF x assms] .
  show ?thesis
  proof (cases "ilog2 x = ilog2 y")
    case True
    have "x / 2 powi ?ey \<le> y / 2 powi ?ey" using assms pow2_pos[of ?ey] by (simp add: divide_right_mono)
    then have "rne (x / 2 powi ?ey) \<le> rne (y / 2 powi ?ey)" by (rule rne_mono)
    then have "(of_int (rne (x / 2 powi ?ey)) :: rat) \<le> of_int (rne (y / 2 powi ?ey))" by simp
    then show ?thesis using pow2_pos[of ?ey] by (simp add: fx fy True mult_right_mono)
  next
    case False
    then have lt: "?ex + 1 \<le> ?ey" using le by linarith
    have "(of_int (rne (x / 2 powi ?ex)) :: rat) \<le> of_int (2 ^ 53)"
      using mant_bounds(2)[OF x] by (simp only: of_int_le_iff)
    then have "fl x \<le> 2 ^ 53 * 2 powi ?ex"
      using pow2_pos[of ?ex] by (simp add: fx mult_right_mono)
    also have "\<dots> = 2 ^ 52 * 2 powi (?ex + 1)"
    proof -
      show ?thesis using pow2_add1[of ?ex] by simp
    qed
    also have "\<dots> \<le> 2 ^ 52 * 2 powi ?ey" using pow2_mono[OF lt] by simp
    also have "\<dots> \<le> fl y"
    proof -
      have "(of_int (2 ^ 52) :: rat) \<le> of_int (rne (y / 2 powi ?ey))"
        using mant_bounds(1)[OF y] by (simp only: of_int_le_iff)
      then show ?thesis using pow2_pos[of ?ey] by (simp add: fy mult_right_mono)
    qed
    finally show ?thesis .
  qed
qed

lemma fl_val_neg:
  assumes "1 / 2 ^ n \<le> x" "x < 2 / 2 ^ n" "\<bar>x * 2 ^ (n + 52) - of_int m\<bar> < 1 / 2"
  shows "fl x = of_int m / 2 ^ (n + 52)"
proof -
  have a: "(2::rat) powi (- int n) = 1 / 2 ^ n" by (simp add: power_int_minus field_simps)
  have b: "(2::rat) powi (1 - int n) = 2 / 2 ^ n" using pow2_add1[of "- int n"] by (simp add: a)
  have c: "(2::rat) powi (- int n - 52) = 1 / 2 ^ (n + 52)"
  proof -
    have "- int n - 52 = - int (n + 52)" by simp
    then show ?thesis by (simp only: power_int_minus power_int_of_nat) (simp add: field_simps)
  qed
  show ?thesis using fl_val[of "- int n" x m] assms by (simp add: a b c)
qed

lemma fl_val_pos:
  assumes "2 ^ n \<le> x" "x < 2 * 2 ^ n" "n \<le> 52" "\<bar>x * 2 ^ (52 - n) - of_int m\<bar> < 1 / 2"
  shows "fl x = of_int m / 2 ^ (52 - n)"
proof -
  have b: "(2::rat) powi (int n + 1) = 2 * 2 ^ n" using pow2_add1[of "int n"] by simp
  have c: "(2::rat) powi (int n - 52) = 1 / 2 ^ (52 - n)"
  proof -
    have "int n - 52 = - int (52 - n)" using assms(3) by simp
    then show ?thesis by (simp only: power_int_minus power_int_of_nat) (simp add: field_simps)
  qed
  show ?thesis using fl_val[of "int n" x m] assms by (simp add: b c)
qed

lemma fl_1: "fl 1 = 1"
  using fl_val_pos[of 0 1 "2 ^ 52"] by simp

lemma fl_100: "fl 100 = 100"
  using fl_val_pos[of 6 100 "25 * 2 ^ 48"] by simp

lemma fl_2_3: "fl (2 / 3) = 6004799503160661 / 2 ^ 53"
  using fl_val_neg[of 1 "2/3" 6004799503160661] by simp

subsection \<open>Progress values\<close>

lemma fl_1_3: "fl (1 / 3) = 6004799503160661 / 2 ^ 54"
  using fl_val_neg[of 2 "1/3" 6004799503160661] by simp

lemma fl_1_3_100: "fl (6004799503160661 / 2 ^ 54 * 100) = 4691249611844266 / 2 ^ 47"
  using fl_val_pos[of 5 "6004799503160661 / 2 ^ 54 * 100" 4691249611844266] by simp

lemma fl_2_3_100: "fl (6004799503160661 / 2 ^ 53 * 100) = 4691249611844266 / 2 ^ 46"
  using fl_val_pos[of 6 "6004799503160661 / 2 ^ 53 * 100" 4691249611844266] by simp

lemma fl_1_101: "fl (1 / 101) = 5707532201023995 / 2 ^ 59"
  using fl_val_neg[of 7 "1/101" 5707532201023995] by simp

lemma fl_1_101_100: "fl (5707532201023995 / 2 ^ 59 * 100) = 8918019064099992 / 2 ^ 53"
  using fl_val_neg[of 1 "5707532201023995 / 2 ^ 59 * 100" 8918019064099992] by simp

lemma progress_value_eval:
  assumes "0 < n" "fl (of_nat i / of_nat n) = q" "fl (q * 100) = r"
    "0 \<le> r" "of_int v \<le> r" "r < of_int v + 1"
  shows "progress_value i n = Inr v"
proof -
  have "\<lfloor>r\<rfloor> = v" using assms(5,6) by (intro floor_unique) auto
  then show ?thesis
    using assms(1-4) by (simp add: progress_value_def truediv_def float_mul_def py_int_def)
qed

lemma progress_value_1_3: "progress_value 1 3 = Inr 33"
proof -
  have a: "fl (of_nat 1 / of_nat 3) = 6004799503160661 / 2 ^ 54" using fl_1_3 by simp
  show ?thesis by (rule progress_value_eval[OF _ a fl_1_3_100]) simp_all
qed

lemma progress_value_2_3: "progress_value 2 3 = Inr 66"
proof -
  have a: "fl (of_nat 2 / of_nat 3) = 6004799503160661 / 2 ^ 53" using fl_2_3 by simp
  show ?thesis by (rule progress_value_eval[OF _ a fl_2_3_100]) simp_all
qed

lemma rounded_progress_2_3: "rounded_progress 2 3 = 67"
proof -
  have a: "fl (of_nat 2 / of_nat 3) = 6004799503160661 / 2 ^ 53" using fl_2_3 by simp
  have "rne (4691249611844266 / 2 ^ 46) = 67" by (rule rne_near) simp
  then show ?thesis unfolding rounded_progress_def float_mul_def a fl_2_3_100 .
qed

lemma progress_value_full: "0 < n \<Longrightarrow> progress_value n n = Inr 100"
  by (simp add: progress_value_def truediv_def float_mul_def py_int_def fl_1 fl_100)

lemma progress_value_Inr:
  "0 < n \<Longrightarrow> progress_value i n = Inr (\<lfloor>fl (fl (of_nat i / of_nat n) * 100)\<rfloor>)"
  by (simp add: progress_value_def truediv_def float_mul_def py_int_def fl_nonneg)

lemma progress_value_mono:
  assumes "0 < n" "i \<le> j" "progress_value i n = Inr a" "progress_value j n = Inr b"
  shows "a \<le> b"
proof -
  have "(of_nat i :: rat) / of_nat n \<le> of_nat j / of_nat n"
    using assms(1,2) by (simp add: divide_right_mono)
  then have "fl (of_nat i / of_nat n) * 100 \<le> fl (of_nat j / of_nat n) * 100"
    using fl_mono by simp
  then have "fl (fl (of_nat i / of_nat n) * 100) \<le> fl (fl (of_nat j / of_nat n) * 100)"
    by (rule fl_mono)
  then have "\<lfloor>fl (fl (of_nat i / of_nat n) * 100)\<rfloor> \<le> \<lfloor>fl (fl (of_nat j / of_nat n) * 100)\<rfloor>"
    by (rule floor_mono)
  then show ?thesis using assms(3,4) by (simp add: progress_value_Inr[OF assms(1)])
qed

lemma progress_value_range:
  assumes "0 < n" "i \<le> n" "progress_value i n = Inr v"
  shows "0 \<le> v \<and> v \<le> 100"
proof -
  have "v \<le> 100"
    using progress_value_mono[OF assms(1,2) assms(3) progress_value_full[OF assms(1)]] .
  moreover have "0 \<le> v"
    using assms(3) fl_nonneg[of "fl (of_nat i / of_nat n) * 100"]
    by (auto simp: progress_value_Inr[OF assms(1)])
  ultimately show ?thesis by simp
qed

lemma progress_value_first_zero:
  assumes "100 < n"
  shows "progress_value 1 n = Inr 0"
proof -
  have n: "0 < n" using assms by simp
  have "(1::rat) / of_nat n \<le> 1 / 101" using assms by (simp add: field_simps)
  then have "fl (1 / of_nat n) \<le> fl (1 / 101)" by (rule fl_mono)
  then have "fl (1 / of_nat n) \<le> 5707532201023995 / 2 ^ 59" by (simp only: fl_1_101)
  then have "fl (1 / of_nat n) * 100 \<le> 5707532201023995 / 2 ^ 59 * 100" by simp
  then have "fl (fl (1 / of_nat n) * 100) \<le> fl (5707532201023995 / 2 ^ 59 * 100)" by (rule fl_mono)
  then have "fl (fl (1 / of_nat n) * 100) \<le> 8918019064099992 / 2 ^ 53" by (simp only: fl_1_101_100)
  then have "fl (fl (1 / of_nat n) * 100) < 1" by simp
  then have "\<lfloor>fl (fl (1 / of_nat n) * 100)\<rfloor> = 0"
    using fl_nonneg[of "fl (1 / of_nat n) * 100"] by (intro floor_unique) auto
  then show ?thesis using progress_value_Inr[OF n, of 1] by simp
qed

section \<open>Facts about statements\<close>

lemma written_append: "written (xs @ ys) = written xs @ written ys"
  by (simp add: written_def)

lemma written_simps:
  "written [] = []" "written (Write d # evs) = d @ written evs"
  "written (Log m # evs) = written evs" "written (Progress v # evs) = written evs"
  "written (Walk p # evs) = written evs" "written (OpenW p # evs) = written evs"
  "written (CloseW # evs) = written evs"
  by (simp_all add: written_def)

lemma progress_events_append:
  "progress_events (xs @ ys) = progress_events xs @ progress_events ys"
  by (simp add: progress_events_def)

lemma progress_events_simps:
  "progress_events [] = []" "progress_events (Progress v # evs) = v # progress_events evs"
  "progress_events (Write d # evs) = progress_events evs"
  "progress_events (Log m # evs) = progress_events evs"
  "progress_events (Walk p # evs) = progress_events evs"
  "progress_events (OpenW p # evs) = progress_events evs"
  "progress_events (CloseW # evs) = progress_events evs"
  by (simp_all add: progress_events_def)

lemma grows_refl: "grows A s s"
  by (simp add: grows_def written_simps)

lemma grows_trans: "grows A s1 s2 \<Longrightarrow> grows A s2 s3 \<Longrightarrow> grows A s1 s3"
  unfolding grows_def
  by (elim exE conjE, rule_tac x = "evs @ evsa" in exI) (auto simp: written_append)

lemma stable_of: "stable (grows A) (act_of r)"
  by (simp add: stable_def act_of_def grows_refl)

lemma stable_bind:
  "stable (grows A) m \<Longrightarrow> (\<And>x. stable (grows A) (f x)) \<Longrightarrow> stable (grows A) (act_bind m f)"
  unfolding stable_def act_bind_def
  by (auto split: prod.splits sum.splits) (blast intro: grows_trans)

lemma stable_seq:
  "stable (grows A) m \<Longrightarrow> stable (grows A) n \<Longrightarrow> stable (grows A) (act_seq m n)"
  unfolding act_seq_def by (rule stable_bind)

lemma stable_try:
  "stable (grows A) m \<Longrightarrow> (\<And>e. stable (grows A) (h e)) \<Longrightarrow> stable (grows A) (act_try m h)"
  unfolding stable_def act_try_def
  by (auto split: prod.splits sum.splits) (blast intro: grows_trans)

lemma stable_emit: "ev \<in> A \<Longrightarrow> (\<And>d. ev \<noteq> Write d) \<Longrightarrow> stable (grows A) (emit ev)"
  unfolding stable_def emit_def grows_def
  by (cases ev) (auto simp: written_simps)

lemma stable_log: "Log m \<in> A \<Longrightarrow> stable (grows A) (log_callback m)"
  unfolding log_callback_def by (rule stable_emit) auto

lemma stable_write: "Write d \<in> A \<Longrightarrow> stable (grows A) (outfile_write env d)"
  unfolding stable_def outfile_write_def grows_def
  by (auto simp: written_simps split: option.splits)

lemma stable_read: "stable (grows A) (read_content env p enc)"
  unfolding read_content_def by (rule stable_of)

lemma stable_copy_content:
  assumes "range Log \<union> range Write \<subseteq> A"
  shows "stable (grows A) (copy_content env full_path relative_path)"
proof -
  have L: "\<And>m. Log m \<in> A" and W: "\<And>d. Write d \<in> A" using assms by auto
  show ?thesis
    unfolding copy_content_def
    by (intro stable_seq stable_try stable_bind stable_write stable_log stable_read L W
          | simp split: exn.split | intro conjI allI impI)+
qed

lemma stable_write_entry:
  assumes "range Log \<union> range Write \<subseteq> A"
  shows "stable (grows A) (write_entry env root_dir full_path)"
proof -
  have L: "\<And>m. Log m \<in> A" and W: "\<And>d. Write d \<in> A" using assms by auto
  show ?thesis
    unfolding write_entry_def Let_def
    by (intro stable_seq stable_write stable_log stable_copy_content[OF assms] L W)
qed

section \<open>Facts about the loop\<close>

lemma progress_value_total:
  "0 < n \<Longrightarrow> \<exists>v. progress_value i n = Inr v"
  by (simp add: progress_value_Inr)

lemma process_files_Cons:
  assumes "progress_value (Suc p) tot = Inr v"
  shows "process_files env rt tot p (f # rest) s =
     (case write_entry env rt f (s\<lparr>trace := trace s @ [Progress v]\<rparr>) of
        (Inl e, s2) \<Rightarrow> (Inl e, s2)
      | (Inr x, s2) \<Rightarrow> process_files env rt tot (Suc p) rest s2)"
  using assms
  by (simp add: act_seq_def act_bind_def act_of_def progress_callback_def emit_def
        split: prod.splits sum.splits)

lemma write_entry_grows:
  assumes "write_entry env rt f s = (r, s')"
  shows "grows (range Log \<union> range Write) s s'"
  using stable_write_entry[of "range Log \<union> range Write" env rt f] assms
  by (simp add: stable_def)

lemma progress_events_none:
  "set evs \<subseteq> range Log \<union> range Write \<Longrightarrow> progress_events evs = []"
  by (induction evs) (auto simp: progress_events_simps)

lemma process_files_shape:
  assumes "0 < tot" "process_files env rt tot p files s = (r, s')"
  shows "\<exists>k evs. k \<le> length files \<and> (files \<noteq> [] \<longrightarrow> 0 < k) \<and> (r = Inr () \<longrightarrow> k = length files) \<and>
           trace s' = trace s @ evs \<and>
           map Inr (progress_events evs) = loop_progress tot p k \<and>
           set evs \<subseteq> range Log \<union> range Write \<union> range Progress \<and>
           accepted s' = accepted s @ written evs \<and> out_file s' = out_file s"
  using assms(2)
proof (induction files arbitrary: p s)
  case Nil
  then show ?case
    by (intro exI[of _ 0] exI[of _ "[]"]) (auto simp: act_of_def progress_events_simps written_simps)
next
  case (Cons f rest)
  obtain v where v: "progress_value (Suc p) tot = Inr v"
    using progress_value_total[OF assms(1)] by blast
  let ?s1 = "s\<lparr>trace := trace s @ [Progress v]\<rparr>"
  obtain r1 s2 where we: "write_entry env rt f ?s1 = (r1, s2)" by (cases "write_entry env rt f ?s1")
  from write_entry_grows[OF we] obtain evs1 where
    e1: "trace s2 = trace ?s1 @ evs1" "set evs1 \<subseteq> range Log \<union> range Write"
        "accepted s2 = accepted ?s1 @ written evs1" "out_file s2 = out_file ?s1"
    unfolding grows_def by blast
  have np: "progress_events evs1 = []" using e1(2) by (rule progress_events_none)
  show ?case
  proof (cases r1)
    case (Inl e)
    then have "r = Inl e" "s' = s2" using Cons.prems we
      by (simp_all del: process_files.simps add: process_files_Cons[OF v])
    then show ?thesis using e1 np v
      by (intro exI[of _ 1] exI[of _ "Progress v # evs1"])
         (auto simp: progress_events_simps written_simps)
  next
    case (Inr x)
    then have rest: "process_files env rt tot (Suc p) rest s2 = (r, s')"
      using Cons.prems we by (simp del: process_files.simps add: process_files_Cons[OF v])
    from Cons.IH[OF rest] obtain k evs where
      k: "k \<le> length rest" "r = Inr () \<longrightarrow> k = length rest"
         "trace s' = trace s2 @ evs"
         "map Inr (progress_events evs) = loop_progress tot (Suc p) k"
         "set evs \<subseteq> range Log \<union> range Write \<union> range Progress"
         "accepted s' = accepted s2 @ written evs"
         "out_file s' = out_file s2"
      by blast
    show ?thesis using e1 np v k
      by (intro exI[of _ "Suc k"] exI[of _ "Progress v # evs1 @ evs"])
         (auto simp: progress_events_simps progress_events_append written_simps written_append)
  qed
qed

lemma write_entry_ok:
  assumes "\<And>c d. write_w env c d = None"
  shows "write_entry env rt f s =
     (Inr (), s\<lparr>trace := trace s @ entry_events env rt f,
                accepted := accepted s @ written (entry_events env rt f)\<rparr>)"
  by (simp add: write_entry_def copy_content_def entry_events_def Let_def act_seq_def
        act_bind_def act_try_def act_of_def read_content_def outfile_write_def log_callback_def
        emit_def assms written_simps split: sum.splits exn.splits)

lemma process_files_ok:
  assumes "\<And>c d. write_w env c d = None" "0 < tot"
  shows "process_files env rt tot p files s =
     (Inr (), s\<lparr>trace := trace s @ loop_events env rt tot p files,
                accepted := accepted s @ written (loop_events env rt tot p files)\<rparr>)"
proof (induction files arbitrary: p s)
  case Nil
  then show ?case by (simp add: act_of_def written_simps)
next
  case (Cons f rest)
  obtain v where v: "progress_value (Suc p) tot = Inr v"
    using progress_value_total[OF assms(2)] by blast
  show ?case
    by (simp del: process_files.simps
          add: process_files_Cons[OF v] write_entry_ok[OF assms(1)] v Cons.IH
               written_simps written_append)
qed

section \<open>The cases of a run\<close>

lemmas act_defs = act_seq_def act_bind_def act_try_def act_of_def emit_def
  log_callback_def progress_callback_def

lemma run_not_dir:
  assumes "\<not> isdir env rt"
  shows "run env rt out ext before =
    (Inr (), \<lparr>trace = [Log (u ''Error: Directory '' @ [39] @ rt @ [39] @ u '' not found.''),
                      Progress (- 1)],
             out_file = before\<rparr>)"
  using assms by (simp add: run_def collect_files_content_gui_def act_defs)

lemma run_no_ext:
  assumes "isdir env rt" "parse_extensions ext = None"
  shows "run env rt out ext before =
    (Inr (), \<lparr>trace = [Log (u ''Error: No valid file extensions provided.''), Progress (- 1)],
             out_file = before\<rparr>)"
  using assms by (simp add: run_def collect_files_content_gui_def act_defs)

lemma run_walk_raises:
  assumes "isdir env rt" "parse_extensions ext = Some t" "files_to_process_of env rt t = Inl e"
  shows "run env rt out ext before = (Inl e, \<lparr>trace = [Walk rt], out_file = before\<rparr>)"
  using assms by (simp add: run_def collect_files_content_gui_def act_defs)

lemma run_no_files:
  assumes "isdir env rt" "parse_extensions ext = Some t" "files_to_process_of env rt t = Inr []"
  shows "run env rt out ext before =
    (Inr (), \<lparr>trace = [Walk rt,
                      Log (u ''No files with extension(s) '' @ ext @ u '' found in '' @ [39] @
                           rt @ [39] @ u ''.''),
                      Progress 100],
             out_file = before\<rparr>)"
  using assms by (simp add: run_def collect_files_content_gui_def act_defs)

lemma run_open_fails:
  assumes "isdir env rt" "parse_extensions ext = Some t"
    "files_to_process_of env rt t = Inr files" "files \<noteq> []"
    "open_w env out = Some e"
  shows "run env rt out ext before =
    (Inr (), \<lparr>trace = [Walk rt,
                      Log (u ''Error occurred while writing to output file: '' @ exn_str e),
                      Progress (- 1)],
             out_file = before\<rparr>)"
  using assms by (simp add: run_def collect_files_content_gui_def act_defs with_outfile_def Let_def)

lemma run_loop:
  assumes "isdir env rt" "parse_extensions ext = Some t"
    "files_to_process_of env rt t = Inr files"
    "files \<noteq> []" "open_w env out = None"
    "process_files env rt (length files) 0 files
       \<lparr>trace = [Walk rt, OpenW out], out_file = Some [], accepted = [], intact = True\<rparr> =
     (r, s1)"
  shows "run env rt out ext before =
    (Inr (),
     \<lparr>trace = trace s1 @ CloseW #
        (case (case close_w env (accepted s1) of Some e \<Rightarrow> Inl e | None \<Rightarrow> r) of
           Inr x \<Rightarrow> [Log ([10] @ u ''Successfully collected content from '' @
                          str_nat (length files) @ u '' files to '' @ [39] @ out @ [39]),
                     Progress 100]
         | Inl e \<Rightarrow> [Log (u ''Error occurred while writing to output file: '' @ exn_str e),
                     Progress (- 1)]),
      out_file = Some (if intact s1 \<and> close_w env (accepted s1) = None then accepted s1
                       else left_on_disk env (accepted s1))\<rparr>)"
  using assms
  by (simp add: run_def collect_files_content_gui_def act_defs with_outfile_def Let_def
        split: option.splits sum.splits)

section \<open>Runs that stop before the output file is opened\<close>

text \<open>
  C6. When \<open>root_dir\<close> is not a directory, the run consists of one error log line
  and one progress event carrying the sentinel, and returns normally: no scan
  (\<open>Walk\<close>), no entry, and the output file is neither opened nor changed.
\<close>

theorem invalid_root_fails_immediately:
  assumes "\<not> isdir env root_dir"
  shows "run env root_dir output_file extensions_str before =
    (Inr (),
     \<lparr>trace = [Log (u ''Error: Directory '' @ [39] @ root_dir @ [39] @ u '' not found.''),
               Progress (- 1)],
      out_file = before\<rparr>)"
  using assms by (rule run_not_dir)

theorem invalid_root_fails_immediately_witness:
  "\<not> isdir (flat_env []) (u ''/does/not/exist'') \<and>
   run (flat_env []) (u ''/does/not/exist'') (u ''/out.txt'') (u ''txt'') (Some (u ''old'')) =
    (Inr (),
     \<lparr>trace = [Log (u ''Error: Directory '' @ [39] @ u ''/does/not/exist'' @ [39] @
                    u '' not found.''),
               Progress (- 1)],
      out_file = Some (u ''old'')\<rparr>)"
proof -
  have h: "\<not> isdir (flat_env []) (u ''/does/not/exist'')"
    by (simp add: flat_env_def u_def)
  show ?thesis
    using h invalid_root_fails_immediately [OF h, of "u ''/out.txt''" "u ''txt''" "Some (u ''old'')"]
    by simp
qed

lemma parse_txt: "parse_extensions (u ''txt'') = Some [u ''.txt'']"
  by (simp add: parse_extensions_def extensions_of_def target_extensions_of_def add_dot_def
        startswith_def strip_def isspace_def u_def)

text \<open>
  C5. When the inputs are valid and no file matches the filter, the run scans, logs one
  line that names the filter and the root, emits the single progress value \<open>100\<close> and
  returns; the output file is never opened and stays as it was, existing or not.
\<close>

theorem empty_run_leaves_output_untouched:
  assumes "isdir env root_dir"
    and "parse_extensions extensions_str = Some target_extensions"
    and "files_to_process_of env root_dir target_extensions = Inr []"
  shows "run env root_dir output_file extensions_str before =
    (Inr (),
     \<lparr>trace = [Walk root_dir,
               Log (u ''No files with extension(s) '' @ extensions_str @ u '' found in '' @
                    [39] @ root_dir @ [39] @ u ''.''),
               Progress 100],
      out_file = before\<rparr>)"
  using assms by (rule run_no_files)

theorem empty_run_leaves_output_untouched_witness:
  "isdir (flat_env [(u ''a.py'', Inr (u ''x''), Inr (u ''x''))]) (u ''/R'') \<and>
   parse_extensions (u ''txt'') = Some [u ''.txt''] \<and>
   files_to_process_of (flat_env [(u ''a.py'', Inr (u ''x''), Inr (u ''x''))]) (u ''/R'')
     [u ''.txt''] = Inr [] \<and>
   run (flat_env [(u ''a.py'', Inr (u ''x''), Inr (u ''x''))]) (u ''/R'') (u ''/out.txt'')
     (u ''txt'') (Some (u ''old'')) =
    (Inr (),
     \<lparr>trace = [Walk (u ''/R''),
               Log (u ''No files with extension(s) '' @ u ''txt'' @ u '' found in '' @
                    [39] @ u ''/R'' @ [39] @ u ''.''),
               Progress 100],
      out_file = Some (u ''old'')\<rparr>)"
proof -
  let ?env = "flat_env [(u ''a.py'', Inr (u ''x''), Inr (u ''x''))]"
  have h1: "isdir ?env (u ''/R'')" by (simp add: flat_env_def)
  have h3: "files_to_process_of ?env (u ''/R'') [u ''.txt''] = Inr []"
    by (simp add: files_to_process_of_def flat_env_def endswith_def u_def suffix_def)
  show ?thesis
    using h1 parse_txt h3
      empty_run_leaves_output_untouched [OF h1 parse_txt h3, of "u ''/out.txt''" "Some (u ''old'')"]
    by simp
qed

section \<open>The output for a single file\<close>

lemma str_nat_1: "str_nat (Suc 0) = u ''1''"
  by (simp add: str_nat.simps[of "Suc 0"] u_def)

lemma entry_events_utf8:
  assumes "read_file env p Utf8Sig = Inr c" "relative_path_of env p root_dir = rp"
  shows "entry_events env root_dir p =
    [Write (rp @ u ''-------------'' @ [10]), Log (u ''Processing: '' @ rp), Write c,
     Write [10, 10]]"
  by (simp add: entry_events_def assms)

text \<open>
  C1. A root directory that holds exactly the file \<open>a.txt\<close>, read as \<open>hello\<close>,
  collected with the filter \<open>txt\<close>: the output file holds the header line (the relative
  path, thirteen hyphens, a newline), the content and two newlines, and the run ends
  with the success log line and progress 100.
\<close>

theorem single_file_round_trip:
  assumes "isdir env root_dir"
    and "walk env root_dir = Inr [(root_dir, [u ''a.txt''])]"
    and "relpath env (path_join env root_dir (u ''a.txt'')) root_dir = u ''a.txt''"
    and "sep env \<notin> set (u ''a.txt'')"
    and "read_file env (path_join env root_dir (u ''a.txt'')) Utf8Sig = Inr (u ''hello'')"
    and "open_w env output_file = None"
    and "\<And>c d. write_w env c d = None"
    and "\<And>c. close_w env c = None"
  shows "run env root_dir output_file (u ''txt'') before =
    (Inr (),
     \<lparr>trace = [Walk root_dir, OpenW output_file, Progress 100,
               Write (u ''a.txt-------------'' @ [10]),
               Log (u ''Processing: a.txt''),
               Write (u ''hello''),
               Write [10, 10],
               CloseW,
               Log ([10] @ u ''Successfully collected content from 1 files to '' @ [39] @
                    output_file @ [39]),
               Progress 100],
      out_file = Some (u ''a.txt-------------'' @ [10] @ u ''hello'' @ [10, 10])\<rparr>)"
proof -
  let ?p = "path_join env root_dir (u ''a.txt'')"
  have files: "files_to_process_of env root_dir [u ''.txt''] = Inr [?p]"
    by (simp add: files_to_process_of_def assms(2) endswith_def u_def suffix_def)
  have rel: "relative_path_of env ?p root_dir = u ''a.txt''"
    using assms(4) unfolding relative_path_of_def assms(3) by (auto simp: replace_def u_def)
  have ev: "loop_events env root_dir (Suc 0) 0 [?p] =
      [Progress 100, Write (u ''a.txt-------------'' @ [10]), Log (u ''Processing: a.txt''),
       Write (u ''hello''), Write [10, 10]]"
    using entry_events_utf8[OF assms(5) rel] by (simp add: progress_value_full u_def)
  have loop: "process_files env root_dir (length [?p]) 0 [?p]
      \<lparr>trace = [Walk root_dir, OpenW output_file], out_file = Some [], accepted = [],
         intact = True\<rparr> =
      (Inr (), \<lparr>trace = [Walk root_dir, OpenW output_file] @ loop_events env root_dir (Suc 0) 0 [?p],
                out_file = Some [],
                accepted = [] @ written (loop_events env root_dir (Suc 0) 0 [?p]),
                intact = True\<rparr>)"
    using process_files_ok[of env "Suc 0" root_dir 0 "[?p]"
        "\<lparr>trace = [Walk root_dir, OpenW output_file], out_file = Some [], accepted = [],
           intact = True\<rparr>"]
      assms(7) by simp
  show ?thesis
    using run_loop[OF assms(1) parse_txt files _ assms(6) loop[unfolded ev], of before]
    by (simp add: assms(8) written_simps str_nat_1 u_def)
qed

theorem single_file_round_trip_witness:
  "isdir (flat_env [(u ''a.txt'', Inr (u ''hello''), Inr (u ''hello''))]) (u ''/R'') \<and>
   run (flat_env [(u ''a.txt'', Inr (u ''hello''), Inr (u ''hello''))]) (u ''/R'')
     (u ''/out.txt'') (u ''txt'') None =
    (Inr (),
     \<lparr>trace = [Walk (u ''/R''), OpenW (u ''/out.txt''), Progress 100,
               Write (u ''a.txt-------------'' @ [10]),
               Log (u ''Processing: a.txt''),
               Write (u ''hello''),
               Write [10, 10],
               CloseW,
               Log ([10] @ u ''Successfully collected content from 1 files to '' @ [39] @
                    u ''/out.txt'' @ [39]),
               Progress 100],
      out_file = Some (u ''a.txt-------------'' @ [10] @ u ''hello'' @ [10, 10])\<rparr>)"
proof -
  let ?env = "flat_env [(u ''a.txt'', Inr (u ''hello''), Inr (u ''hello''))]"
  have h1: "isdir ?env (u ''/R'')" by (simp add: flat_env_def)
  have h2: "walk ?env (u ''/R'') = Inr [(u ''/R'', [u ''a.txt''])]" by (simp add: flat_env_def)
  have h3: "relpath ?env (path_join ?env (u ''/R'') (u ''a.txt'')) (u ''/R'') = u ''a.txt''"
    by (simp add: flat_env_def u_def)
  have h4: "sep ?env \<notin> set (u ''a.txt'')" by (simp add: flat_env_def u_def)
  have h5: "read_file ?env (path_join ?env (u ''/R'') (u ''a.txt'')) Utf8Sig = Inr (u ''hello'')"
    by (simp add: flat_env_def u_def)
  have h6: "open_w ?env (u ''/out.txt'') = None" by (simp add: flat_env_def)
  have h7: "\<And>c d. write_w ?env c d = None" by (simp add: flat_env_def)
  have h8: "\<And>c. close_w ?env c = None" by (simp add: flat_env_def)
  show ?thesis
    using h1 single_file_round_trip [OF h1 h2 h3 h4 h5 h6 h7 h8, of None] by simp
qed

section \<open>Facts about parsing\<close>

lemma split_nonempty: "split c s \<noteq> []"
  by (induction s) (auto split: list.splits)

lemma split_no_sep: "c \<notin> set t \<Longrightarrow> split c t = [t]"
  by (induction t) auto

lemma split_append_sep: "c \<notin> set t \<Longrightarrow> split c (t @ c # rest) = t # split c rest"
  by (induction t) (auto split: list.splits)

lemma split_str_join:
  assumes "ts \<noteq> []" "\<forall>t\<in>set ts. c \<notin> set t"
  shows "split c (str_join c ts) = ts"
  using assms
proof (induction c ts rule: str_join.induct)
  case (1 c) then show ?case by simp
next
  case (2 c t) then show ?case by (simp add: split_no_sep)
next
  case (3 c t v va)
  then show ?case by (simp add: split_append_sep)
qed

lemma dropWhile_snoc: "\<not> P x \<Longrightarrow> dropWhile P (xs @ [x]) = dropWhile P xs @ [x]"
  by (induction xs) auto

lemma strip_Cons_nonspace:
  "\<not> isspace x \<Longrightarrow> strip (x # t) = x # rev (dropWhile isspace (rev t))"
  by (simp add: strip_def dropWhile_snoc)

lemma strip_dot:
  assumes "t \<noteq> []" "\<not> isspace (hd t)"
  shows "strip (46 # t) = 46 # strip t" "strip t \<noteq> []" "hd (strip t) = hd t"
proof -
  obtain a t' where t: "t = a # t'" using assms(1) by (cases t) auto
  have a: "\<not> isspace a" using assms(2) t by simp
  have d: "\<not> isspace 46" by (simp add: isspace_def)
  show "strip (46 # t) = 46 # strip t"
    using a by (simp add: t strip_Cons_nonspace[OF a] strip_Cons_nonspace[OF d] dropWhile_snoc)
  show "strip t \<noteq> []" by (simp add: t strip_Cons_nonspace[OF a])
  show "hd (strip t) = hd t" by (simp add: t strip_Cons_nonspace[OF a])
qed

lemma strip_pad:
  assumes "\<forall>c\<in>set l. isspace c" "\<forall>c\<in>set r. isspace c"
  shows "strip (l @ t @ r) = strip t"
proof -
  have l: "dropWhile isspace (l @ t @ r) = dropWhile isspace (t @ r)"
    using assms(1) by (intro dropWhile_append2) auto
  show ?thesis
  proof (cases "\<forall>c\<in>set t. isspace c")
    case True
    then have "dropWhile isspace (t @ r) = []" "dropWhile isspace t = []"
      using assms(2) by auto
    then show ?thesis by (simp only: strip_def l)
  next
    case False
    then have "dropWhile isspace (t @ r) = dropWhile isspace t @ r"
      by (auto simp: dropWhile_append1)
    moreover have "dropWhile isspace (rev r @ rev (dropWhile isspace t)) =
        dropWhile isspace (rev (dropWhile isspace t))"
      using assms(2) by (intro dropWhile_append2) auto
    ultimately show ?thesis by (simp add: strip_def l)
  qed
qed

lemma extensions_of_str_join:
  assumes "ts \<noteq> []" "\<forall>t\<in>set ts. 124 \<notin> set t"
  shows "extensions_of (str_join 124 ts) = map strip (filter (\<lambda>ext. strip ext \<noteq> []) ts)"
  by (simp add: extensions_of_def split_str_join[OF assms])

lemma add_dot_eq: "add_dot ext = (if ext \<noteq> [] \<and> hd ext = 46 then ext else 46 # ext)"
  by (cases ext) (auto simp: add_dot_def startswith_def u_def)

lemma parse_cs_txt:
  "parse_extensions (u ''cs|txt'') = Some [u ''.cs'', u ''.txt'']"
  "parse_extensions (u ''.cs|.txt'') = Some [u ''.cs'', u ''.txt'']"
  "parse_extensions (u ''.cs'') = Some [u ''.cs'']"
  "parse_extensions (u ''..cs'') = Some [u ''..cs'']"
  by (simp_all add: parse_extensions_def extensions_of_def target_extensions_of_def add_dot_def
        startswith_def strip_def isspace_def u_def)

subsection \<open>Normalisation of the extension filter\<close>

lemma parse_extensions_spec:
  "parse_extensions s = (if spec_suffixes s = [] then None else Some (spec_suffixes s))"
  by (simp add: parse_extensions_def extensions_of_def target_extensions_of_def spec_suffixes_def
        add_dot_def filter_map o_def Let_def)

lemma map_strip_dot:
  assumes "\<forall>t\<in>set ts. t \<noteq> [] \<and> \<not> isspace (hd t) \<and> hd t \<noteq> 46"
  shows "map add_dot (map strip (filter (\<lambda>ext. strip ext \<noteq> []) (map ((#) 46) ts))) =
         map add_dot (map strip (filter (\<lambda>ext. strip ext \<noteq> []) ts))"
  using assms
proof (induction ts)
  case Nil then show ?case by simp
next
  case (Cons t ts)
  then have t: "t \<noteq> []" "\<not> isspace (hd t)" "hd t \<noteq> 46" by auto
  show ?case using Cons t strip_dot[OF t(1,2)] by (simp add: add_dot_eq)
qed

lemma map_strip_pad:
  assumes "\<forall>t\<in>set ts. (\<forall>c\<in>set (l t). isspace c) \<and> (\<forall>c\<in>set (r t). isspace c)"
  shows "map strip (filter (\<lambda>ext. strip ext \<noteq> []) (map (\<lambda>t. l t @ t @ r t) ts)) =
         map strip (filter (\<lambda>ext. strip ext \<noteq> []) ts)"
  using assms by (induction ts) (auto simp: strip_pad)

lemma not_space_bar: "\<forall>c\<in>set w. isspace c \<Longrightarrow> 124 \<notin> set w"
  by (auto simp: isspace_def)

text \<open>
  C7, as stated, fails: a token that already starts with \<open>.\<close> gets no further dot, so
  adding one changes the result.
\<close>

theorem leading_dot_not_invariant_counterexample:
  "parse_extensions (46 # u ''.cs'') \<noteq> parse_extensions (u ''.cs'')"
  by (simp add: parse_extensions_def extensions_of_def target_extensions_of_def add_dot_def
        startswith_def strip_def isspace_def u_def)

text \<open>
  C7, amended. Parsing is what the specification describes (split on \<open>|\<close>, trim,
  discard empty tokens, prefix \<open>.\<close> where it is missing), and every resulting suffix
  starts with \<open>.\<close>. Parsing is invariant under whitespace around the tokens, and under
  adding a leading \<open>.\<close> to tokens that are not empty and start neither with whitespace
  nor with \<open>.\<close>. In particular \<open>cs|txt\<close> and \<open>.cs|.txt\<close> both give \<open>.cs\<close>, \<open>.txt\<close>.
\<close>

theorem parse_normalization:
  assumes "ts \<noteq> []" and "\<forall>t\<in>set ts. 124 \<notin> set t"
    and "\<forall>t\<in>set ts. (\<forall>c\<in>set (l t). isspace c) \<and> (\<forall>c\<in>set (r t). isspace c)"
  shows "parse_extensions s = (if spec_suffixes s = [] then None else Some (spec_suffixes s)) \<and>
    (\<forall>e\<in>set (spec_suffixes s). startswith e (u ''.'')) \<and>
    parse_extensions (str_join 124 (map (\<lambda>t. l t @ t @ r t) ts)) =
      parse_extensions (str_join 124 ts) \<and>
    ((\<forall>t\<in>set ts. t \<noteq> [] \<and> \<not> isspace (hd t) \<and> hd t \<noteq> 46) \<longrightarrow>
       parse_extensions (str_join 124 (map ((#) 46) ts)) = parse_extensions (str_join 124 ts)) \<and>
    parse_extensions (u ''cs|txt'') = Some [u ''.cs'', u ''.txt''] \<and>
    parse_extensions (u ''.cs|.txt'') = Some [u ''.cs'', u ''.txt'']"
proof -
  have a: "parse_extensions s = (if spec_suffixes s = [] then None else Some (spec_suffixes s))"
    by (rule parse_extensions_spec)
  have b: "\<forall>e\<in>set (spec_suffixes s). startswith e (u ''.'')"
    by (auto simp: spec_suffixes_def startswith_def u_def)
  have ne: "map (\<lambda>t. l t @ t @ r t) ts \<noteq> []" "map ((#) 46) ts \<noteq> []" using assms(1) by auto
  have nb: "\<forall>t\<in>set (map (\<lambda>t. l t @ t @ r t) ts). 124 \<notin> set t"
    using assms(2,3) not_space_bar by auto
  have c: "parse_extensions (str_join 124 (map (\<lambda>t. l t @ t @ r t) ts)) =
      parse_extensions (str_join 124 ts)"
    by (simp add: parse_extensions_def extensions_of_str_join[OF ne(1) nb]
          extensions_of_str_join[OF assms(1,2)] map_strip_pad[OF assms(3)])
  have d: "parse_extensions (str_join 124 (map ((#) 46) ts)) = parse_extensions (str_join 124 ts)"
    if h: "\<forall>t\<in>set ts. t \<noteq> [] \<and> \<not> isspace (hd t) \<and> hd t \<noteq> 46"
  proof -
    have nb': "\<forall>t\<in>set (map ((#) 46) ts). 124 \<notin> set t" using assms(2) by auto
    have e: "filter (\<lambda>ext. strip ext \<noteq> []) (map ((#) 46) ts) = map ((#) 46) ts"
      "filter (\<lambda>ext. strip ext \<noteq> []) ts = ts"
      using h strip_dot by (auto simp: filter_id_conv)
    show ?thesis
      using map_strip_dot[OF h] assms(1)
      by (simp add: parse_extensions_def extensions_of_str_join[OF ne(2) nb']
            extensions_of_str_join[OF assms(1,2)] target_extensions_of_def e)
  qed
  show ?thesis using a b c d parse_cs_txt(1,2) by blast
qed

theorem parse_normalization_witness:
  "[u ''cs'', u ''txt''] \<noteq> [] \<and>
   parse_extensions (u '' cs  | txt  '') = parse_extensions (u ''cs|txt'') \<and>
   parse_extensions (u ''.cs|.txt'') = parse_extensions (u ''cs|txt'')"
proof -
  let ?ts = "[u ''cs'', u ''txt'']"
  let ?l = "\<lambda>t::pystr. [32::nat]" and ?r = "\<lambda>t::pystr. [32::nat, 32]"
  have h1: "?ts \<noteq> []" by simp
  have h2: "\<forall>t\<in>set ?ts. 124 \<notin> set t" by (simp add: u_def)
  have h3: "\<forall>t\<in>set ?ts. (\<forall>c\<in>set (?l t). isspace c) \<and> (\<forall>c\<in>set (?r t). isspace c)"
    by (simp add: isspace_def)
  have h4: "\<forall>t\<in>set ?ts. t \<noteq> [] \<and> \<not> isspace (hd t) \<and> hd t \<noteq> 46"
    by (simp add: u_def isspace_def)
  show ?thesis
    using h4 parse_normalization [OF h1 h2 h3, of "[]"]
    by (simp add: u_def)
qed

section \<open>The progress values of a run\<close>

lemma loop_progress_eq:
  "loop_progress n p k = map (\<lambda>i. progress_value i n) [Suc p ..< Suc p + k]"
proof (induction k arbitrary: p)
  case 0 then show ?case by simp
next
  case (Suc k)
  have "[Suc p ..< Suc p + Suc k] = Suc p # [Suc (Suc p) ..< Suc (Suc p) + k]"
    by (simp add: upt_conv_Cons)
  then show ?case by (simp add: Suc)
qed

lemma loop_progress_nth:
  assumes "map Inr ps = loop_progress n 0 k"
  shows "length ps = k" "\<And>j. j < k \<Longrightarrow> progress_value (Suc j) n = Inr (ps ! j)"
proof -
  have e: "map Inr ps = map (\<lambda>i. progress_value i n) [Suc 0 ..< Suc 0 + k]"
    using assms by (simp only: loop_progress_eq)
  from arg_cong[OF e, of length] show l: "length ps = k" by simp
  fix j assume j: "j < k"
  from arg_cong[OF e, of "\<lambda>xs. xs ! j"] show "progress_value (Suc j) n = Inr (ps ! j)"
    using j l by (simp add: nth_map del: upt_Suc)
qed

lemma loop_progress_props:
  assumes "0 < n" "k \<le> n" "map Inr ps = loop_progress n 0 k"
  shows "sorted ps" "\<forall>v\<in>set ps. 0 \<le> v \<and> v \<le> 100" "0 < k \<Longrightarrow> k = n \<Longrightarrow> last ps = 100"
    "0 < k \<Longrightarrow> 100 < n \<Longrightarrow> hd ps = 0"
proof -
  note l = loop_progress_nth(1)[OF assms(3)] and nth = loop_progress_nth(2)[OF assms(3)]
  show "sorted ps"
    unfolding sorted_iff_nth_mono
  proof (intro allI impI)
    fix i j assume ij: "i \<le> j" "j < length ps"
    then have "Suc i \<le> Suc j" "i < k" "j < k" using l by auto
    then show "ps ! i \<le> ps ! j" using progress_value_mono[OF assms(1) _ nth nth] by blast
  qed
  show "\<forall>v\<in>set ps. 0 \<le> v \<and> v \<le> 100"
  proof
    fix v assume "v \<in> set ps"
    then obtain j where j: "j < k" "v = ps ! j" using l by (auto simp: in_set_conv_nth)
    then have "Suc j \<le> n" using assms(2) by simp
    then show "0 \<le> v \<and> v \<le> 100" using progress_value_range[OF assms(1) _ nth[OF j(1)]] j(2) by simp
  qed
  show "last ps = 100" if "0 < k" "k = n"
  proof -
    have ne: "ps \<noteq> []" using l that by auto
    have "progress_value (Suc (k - 1)) n = Inr (ps ! (k - 1))" using that by (intro nth) simp
    then have "ps ! (k - 1) = 100" using that progress_value_full[OF assms(1)] by simp
    then show ?thesis using ne l by (simp add: last_conv_nth)
  qed
  show "hd ps = 0" if "0 < k" "100 < n"
  proof -
    have ne: "ps \<noteq> []" using l that by auto
    have "progress_value (Suc 0) n = Inr (ps ! 0)" using that by (intro nth) simp
    then have "ps ! 0 = 0" using progress_value_first_zero[OF that(2)] by simp
    then show ?thesis using ne by (simp add: hd_conv_nth)
  qed
qed

lemma progress_events_entry: "progress_events (entry_events env rt f) = []"
  by (simp add: entry_events_def Let_def progress_events_simps progress_events_append
        split: sum.splits exn.splits)

lemma progress_loop_events:
  assumes "0 < n"
  shows "map Inr (progress_events (loop_events env rt n p files)) = loop_progress n p (length files)"
proof (induction files arbitrary: p)
  case Nil then show ?case by (simp add: progress_events_simps)
next
  case (Cons f rest)
  obtain v where v: "progress_value (Suc p) n = Inr v"
    using progress_value_total[OF assms] by blast
  show ?case using Cons[of "Suc p"]
    by (simp add: v progress_events_append progress_events_simps progress_events_entry)
qed

lemma run_ok:
  assumes "isdir env rt" "parse_extensions ext = Some t"
    "files_to_process_of env rt t = Inr files"
    "files \<noteq> []" "open_w env out = None" "\<And>c d. write_w env c d = None"
    "\<And>c. close_w env c = None"
  shows "run env rt out ext before =
    (Inr (),
     \<lparr>trace = [Walk rt, OpenW out] @ loop_events env rt (length files) 0 files @
        [CloseW,
         Log ([10] @ u ''Successfully collected content from '' @ str_nat (length files) @
              u '' files to '' @ [39] @ out @ [39]),
         Progress 100],
      out_file = Some (written (loop_events env rt (length files) 0 files))\<rparr>)"
proof -
  have n: "0 < length files" using assms(4) by simp
  have loop: "process_files env rt (length files) 0 files
      \<lparr>trace = [Walk rt, OpenW out], out_file = Some [], accepted = [], intact = True\<rparr> =
      (Inr (), \<lparr>trace = [Walk rt, OpenW out] @ loop_events env rt (length files) 0 files,
                out_file = Some [],
                accepted = [] @ written (loop_events env rt (length files) 0 files),
                intact = True\<rparr>)"
    using process_files_ok[of env "length files" rt 0 files
        "\<lparr>trace = [Walk rt, OpenW out], out_file = Some [], accepted = [], intact = True\<rparr>"]
      assms(6) n by simp
  show ?thesis
    using run_loop[OF assms(1,2,3,4,5) loop, of before] by (simp add: assms(7))
qed

lemma run_progress_shape:
  assumes "isdir env rt" "parse_extensions ext = Some t"
    "files_to_process_of env rt t = Inr files"
    "files \<noteq> []"
  shows "(open_w env out \<noteq> None \<and>
          progress_events (trace (snd (run env rt out ext before))) = [- 1]) \<or>
         (\<exists>k ps. open_w env out = None \<and> 0 < k \<and> k \<le> length files \<and>
            map Inr ps = loop_progress (length files) 0 k \<and>
            (progress_events (trace (snd (run env rt out ext before))) = ps @ [- 1] \<or>
             k = length files \<and>
             progress_events (trace (snd (run env rt out ext before))) = ps @ [100]))"
proof (cases "open_w env out")
  case (Some e)
  then show ?thesis
    using run_open_fails[OF assms(1,2,3,4) Some, of before]
    by (simp add: progress_events_simps)
next
  case None
  let ?w0 = "\<lparr>trace = [Walk rt, OpenW out], out_file = Some [], accepted = [], intact = True\<rparr>"
  obtain r w1 where loop: "process_files env rt (length files) 0 files ?w0 = (r, w1)"
    by (cases "process_files env rt (length files) 0 files ?w0")
  have n: "0 < length files" using assms(4) by simp
  from process_files_shape[OF n loop] obtain k evs where
    k: "k \<le> length files" "0 < k" "r = Inr () \<longrightarrow> k = length files"
       "trace w1 = trace ?w0 @ evs" "map Inr (progress_events evs) = loop_progress (length files) 0 k"
    using assms(4) by blast
  let ?o = "case close_w env (accepted w1) of Some e \<Rightarrow> Inl e | None \<Rightarrow> r"
  have run: "progress_events (trace (snd (run env rt out ext before))) =
      progress_events evs @ (case ?o of Inr x \<Rightarrow> [100] | Inl e \<Rightarrow> [- 1])"
    using run_loop[OF assms(1,2,3,4) None loop, of before] k(4)
    by (simp add: progress_events_simps progress_events_append split: sum.splits)
  have "?o = Inr () \<longrightarrow> r = Inr ()" by (simp split: option.splits)
  then show ?thesis
    using None k run
    by (intro disjI2 exI[of _ k] exI[of _ "progress_events evs"]) (auto split: sum.splits)
qed

subsection \<open>A run over three files\<close>

lemma progress_value_of_3:
  "progress_value (Suc 0) (Suc (Suc (Suc 0))) = Inr 33"
  "progress_value (Suc (Suc 0)) (Suc (Suc (Suc 0))) = Inr 66"
  "progress_value (Suc (Suc (Suc 0))) (Suc (Suc (Suc 0))) = Inr 100"
  using progress_value_1_3 progress_value_2_3 progress_value_full[of 3]
  by (simp_all add: numeral_3_eq_3 numeral_2_eq_2)

lemma str_nat_3: "str_nat (Suc (Suc (Suc 0))) = u ''3''"
  by (simp add: str_nat.simps[of "Suc (Suc (Suc 0))"] u_def)

lemma three_files_found:
  "files_to_process_of (flat_env three_files) (u ''/R'') [u ''.txt''] =
     Inr [u ''/R/a.txt'', u ''/R/b.txt'', u ''/R/c.txt'']"
  by (simp add: files_to_process_of_def flat_env_def three_files_def endswith_def u_def suffix_def)

lemma three_files_events:
  "loop_events (flat_env three_files) (u ''/R'') 3 0 [u ''/R/a.txt'', u ''/R/b.txt'', u ''/R/c.txt''] =
     [Progress 33, Write (u ''a.txt-------------'' @ [10]), Log (u ''Processing: a.txt''),
      Write (u ''A''), Write [10, 10],
      Progress 66, Write (u ''b.txt-------------'' @ [10]), Log (u ''Processing: b.txt''),
      Write [255],
      Write ([10] @ u ''[Warning: File read with latin-1 encoding]'' @ [10]),
      Log (u ''Warning: b.txt read with latin-1 due to UTF-8 decoding error.''),
      Write [10, 10],
      Progress 100, Write (u ''c.txt-------------'' @ [10]), Log (u ''Processing: c.txt''),
      Write (u ''C''), Write [10, 10]]"
  by (simp add: numeral_3_eq_3 progress_value_of_3 entry_events_def relative_path_of_def
        replace_def flat_env_def three_files_def u_def)

lemma three_files_run:
  "run (flat_env three_files) (u ''/R'') (u ''/out.txt'') (u ''txt'') None =
    (Inr (),
     \<lparr>trace =
       [Walk (u ''/R''), OpenW (u ''/out.txt''),
        Progress 33, Write (u ''a.txt-------------'' @ [10]), Log (u ''Processing: a.txt''),
        Write (u ''A''), Write [10, 10],
        Progress 66, Write (u ''b.txt-------------'' @ [10]), Log (u ''Processing: b.txt''),
        Write [255],
        Write ([10] @ u ''[Warning: File read with latin-1 encoding]'' @ [10]),
        Log (u ''Warning: b.txt read with latin-1 due to UTF-8 decoding error.''),
        Write [10, 10],
        Progress 100, Write (u ''c.txt-------------'' @ [10]), Log (u ''Processing: c.txt''),
        Write (u ''C''), Write [10, 10],
        CloseW,
        Log ([10] @ u ''Successfully collected content from 3 files to '' @ [39] @
             u ''/out.txt'' @ [39]),
        Progress 100],
      out_file = Some (u ''a.txt-------------'' @ [10] @ u ''A'' @ [10, 10] @
                       u ''b.txt-------------'' @ [10] @ [255] @ [10] @
                       u ''[Warning: File read with latin-1 encoding]'' @ [10] @ [10, 10] @
                       u ''c.txt-------------'' @ [10] @ u ''C'' @ [10, 10])\<rparr>)"
proof -
  let ?env = "flat_env three_files"
  have h1: "isdir ?env (u ''/R'')" by (simp add: flat_env_def)
  have h4: "[u ''/R/a.txt'', u ''/R/b.txt'', u ''/R/c.txt''] \<noteq> []" by simp
  have h5: "open_w ?env (u ''/out.txt'') = None" by (simp add: flat_env_def)
  have h6: "\<And>c d. write_w ?env c d = None" by (simp add: flat_env_def)
  have h7: "\<And>c. close_w ?env c = None" by (simp add: flat_env_def)
  have l: "length [u ''/R/a.txt'', u ''/R/b.txt'', u ''/R/c.txt''] = 3" by simp
  show ?thesis
    using run_ok[OF h1 parse_txt three_files_found h4 h5 h6 h7, of None]
    unfolding l three_files_events
    by (simp add: written_simps str_nat_3[unfolded numeral_3_eq_3[symmetric]] u_def)
qed

lemma three_files_progress:
  "progress_events (trace (snd (run (flat_env three_files) (u ''/R'') (u ''/out.txt'')
     (u ''txt'') None))) = [33, 66, 100, 100]"
  by (simp add: three_files_run progress_events_simps)

subsection \<open>The value reported for each file\<close>

text \<open>
  C2, as stated, fails: with three files the second per-file value is
  \<open>int(2 / 3 * 100) = 66\<close>, where rounding would give \<open>67\<close>.
\<close>

theorem progress_not_rounded_counterexample:
  "progress_events (trace (snd (run (flat_env three_files) (u ''/R'') (u ''/out.txt'')
     (u ''txt'') None))) ! 1 = 66 \<and> rounded_progress 2 3 = 67"
  by (simp add: three_files_progress rounded_progress_2_3)

text \<open>
  C2, amended. In every run over \<open>n > 0\<close> files that does not emit the error sentinel,
  the progress events are one value per file, in order, followed by the final \<open>100\<close>;
  the value of the \<open>i\<close>-th file is \<open>int(i / n * 100)\<close>, the double-precision quotient
  times 100 truncated toward zero; the value of the last file is exactly \<open>100\<close>, and for
  \<open>n = 3\<close> the second value is \<open>66\<close>.
\<close>

theorem per_file_progress_truncated:
  assumes "isdir env root_dir"
    and "parse_extensions extensions_str = Some target_extensions"
    and "files_to_process_of env root_dir target_extensions = Inr files"
    and "files \<noteq> []"
    and "- 1 \<notin> set (progress_events (trace (snd
           (run env root_dir output_file extensions_str before))))"
  shows "map Inr (progress_events (trace (snd
           (run env root_dir output_file extensions_str before)))) =
         map (\<lambda>i. progress_value i (length files)) [1..<Suc (length files)] @ [Inr 100] \<and>
         progress_value (length files) (length files) = Inr 100 \<and>
         progress_value 2 3 = Inr 66"
proof -
  let ?ps = "progress_events (trace (snd (run env root_dir output_file extensions_str before)))"
  from run_progress_shape[OF assms(1-4), of output_file before] assms(5)
  obtain ps where ps: "map Inr ps = loop_progress (length files) 0 (length files)"
    "?ps = ps @ [100]"
    by auto
  have "map Inr ?ps = map Inr ps @ [Inr 100]" by (simp add: ps(2))
  also have "map Inr ps = map (\<lambda>i. progress_value i (length files)) [1..<Suc (length files)]"
    by (simp only: ps(1) loop_progress_eq) simp
  finally show ?thesis
    using assms(4) progress_value_full[of "length files"] progress_value_2_3 by simp
qed

theorem per_file_progress_truncated_witness:
  "isdir (flat_env three_files) (u ''/R'') \<and>
   parse_extensions (u ''txt'') = Some [u ''.txt''] \<and>
   files_to_process_of (flat_env three_files) (u ''/R'') [u ''.txt''] =
     Inr [u ''/R/a.txt'', u ''/R/b.txt'', u ''/R/c.txt''] \<and>
   - 1 \<notin> set (progress_events (trace (snd (run (flat_env three_files) (u ''/R'')
     (u ''/out.txt'') (u ''txt'') None)))) \<and>
   map Inr (progress_events (trace (snd (run (flat_env three_files) (u ''/R'')
     (u ''/out.txt'') (u ''txt'') None)))) =
     [progress_value 1 3, progress_value 2 3, progress_value 3 3, Inr 100]"
proof -
  have h1: "isdir (flat_env three_files) (u ''/R'')" by (simp add: flat_env_def)
  have h4: "[u ''/R/a.txt'', u ''/R/b.txt'', u ''/R/c.txt''] \<noteq> []" by simp
  have h5: "- 1 \<notin> set (progress_events (trace (snd (run (flat_env three_files) (u ''/R'')
     (u ''/out.txt'') (u ''txt'') None))))"
    by (simp add: three_files_progress)
  have up: "[1..<Suc (length [u ''/R/a.txt'', u ''/R/b.txt'', u ''/R/c.txt''])] = [1, 2, 3]"
    by (simp add: upt_conv_Cons)
  show ?thesis
    using h1 parse_txt three_files_found h5
      per_file_progress_truncated [OF h1 parse_txt three_files_found h4 h5]
    unfolding up by (simp add: eval_nat_numeral)
qed

subsection \<open>Range and order of the progress values\<close>

lemma run_progress_cases:
  fixes env rt out ext before
  defines "ps \<equiv> progress_events (trace (snd (run env rt out ext before)))"
  shows "ps = [] \<or> ps = [- 1] \<or> ps = [100] \<or>
    (\<exists>k qs n. 0 < n \<and> 0 < k \<and> k \<le> n \<and> map Inr qs = loop_progress n 0 k \<and>
       (ps = qs @ [- 1] \<or> k = n \<and> ps = qs @ [100]))"
proof (cases "isdir env rt")
  case False
  then show ?thesis by (simp add: ps_def run_not_dir progress_events_simps)
next
  case True
  show ?thesis
  proof (cases "parse_extensions ext")
    case None
    then show ?thesis using True by (simp add: ps_def run_no_ext progress_events_simps)
  next
    case (Some t)
    show ?thesis
    proof (cases "files_to_process_of env rt t")
      case (Inl e)
      show ?thesis by (simp add: ps_def run_walk_raises[OF True Some Inl] progress_events_simps)
    next
      case (Inr files)
      show ?thesis
      proof (cases "files = []")
        case e: True
        show ?thesis
          using run_no_files[OF True Some Inr[unfolded e], of out before]
          by (simp add: ps_def progress_events_simps)
      next
        case ne: False
        have n: "0 < length files" using ne by simp
        from run_progress_shape[OF True Some Inr ne, of out before] n
        show ?thesis unfolding ps_def by blast
      qed
    qed
  qed
qed

lemma shape_sorted:
  assumes "0 < n" "k \<le> n" "map Inr qs = loop_progress n 0 k"
  shows "sorted (qs @ [100])" "- 1 \<notin> set qs"
  using loop_progress_props(1,2)[OF assms] by (auto simp: sorted_append)

text \<open>
  C4. The progress values of a run that never emits the error sentinel are
  non-decreasing, and in every run the error sentinel, if emitted, is the last progress
  value.
\<close>

theorem progress_monotone_sentinel_last:
  "(- 1 \<notin> set (progress_events (trace (snd (run env root_dir output_file extensions_str before))))
      \<longrightarrow> sorted (progress_events (trace (snd
             (run env root_dir output_file extensions_str before))))) \<and>
   (\<forall>i < length (progress_events (trace (snd
             (run env root_dir output_file extensions_str before)))).
      progress_events (trace (snd (run env root_dir output_file extensions_str before))) ! i = - 1
      \<longrightarrow> Suc i = length (progress_events (trace (snd
             (run env root_dir output_file extensions_str before)))))"
proof -
  let ?ps = "progress_events (trace (snd (run env root_dir output_file extensions_str before)))"
  consider "?ps = []" | "?ps = [- 1]" | "?ps = [100]"
    | k qs n where "0 < n" "k \<le> n" "map Inr qs = loop_progress n 0 k"
        "?ps = qs @ [- 1] \<or> ?ps = qs @ [100]"
    using run_progress_cases[of env root_dir output_file extensions_str before] by blast
  then show ?thesis
  proof cases
    case 1 then show ?thesis by simp
  next
    case 2 then show ?thesis by simp
  next
    case 3 then show ?thesis by simp
  next
    case 4
    note s = shape_sorted[OF 4(1,2,3)]
    have nth: "\<And>i. i < length qs \<Longrightarrow> qs ! i \<noteq> - 1" using s(2) by (metis nth_mem)
    from 4(4) show ?thesis
    proof
      assume p: "?ps = qs @ [- 1]"
      show ?thesis using nth by (auto simp: p nth_append)
    next
      assume p: "?ps = qs @ [100]"
      show ?thesis using nth s(1) by (auto simp: p nth_append)
    qed
  qed
qed

theorem progress_monotone_sentinel_last_witness:
  "- 1 \<notin> set (progress_events (trace (snd (run (flat_env three_files) (u ''/R'')
      (u ''/out.txt'') (u ''txt'') None)))) \<and>
   sorted (progress_events (trace (snd (run (flat_env three_files) (u ''/R'')
      (u ''/out.txt'') (u ''txt'') None)))) \<and>
   0 < length (progress_events (trace (snd (run (flat_env []) (u ''/does/not/exist'')
      (u ''/out.txt'') (u ''txt'') None)))) \<and>
   progress_events (trace (snd (run (flat_env []) (u ''/does/not/exist'')
      (u ''/out.txt'') (u ''txt'') None))) ! 0 = - 1 \<and>
   Suc 0 = length (progress_events (trace (snd (run (flat_env []) (u ''/does/not/exist'')
      (u ''/out.txt'') (u ''txt'') None))))"
proof -
  have h: "\<not> isdir (flat_env []) (u ''/does/not/exist'')" by (simp add: flat_env_def u_def)
  have p: "progress_events (trace (snd (run (flat_env []) (u ''/does/not/exist'')
      (u ''/out.txt'') (u ''txt'') None))) = [- 1]"
    by (simp add: run_not_dir[OF h] progress_events_simps)
  have a: "- 1 \<notin> set (progress_events (trace (snd (run (flat_env three_files) (u ''/R'')
      (u ''/out.txt'') (u ''txt'') None))))"
    by (simp add: three_files_progress)
  have b: "sorted (progress_events (trace (snd (run (flat_env three_files) (u ''/R'')
      (u ''/out.txt'') (u ''txt'') None))))"
    using a progress_monotone_sentinel_last [of "flat_env three_files" "u ''/R''"
        "u ''/out.txt''" "u ''txt''" None]
    by blast
  have c: "Suc 0 = length (progress_events (trace (snd (run (flat_env []) (u ''/does/not/exist'')
      (u ''/out.txt'') (u ''txt'') None))))"
    using progress_monotone_sentinel_last [of "flat_env []" "u ''/does/not/exist''"
        "u ''/out.txt''" "u ''txt''" None] p
    by simp
  show ?thesis using a b c p by simp
qed

lemma endswith_txt: "endswith (s @ u ''.txt'') [u ''.txt'']"
  by (simp add: endswith_def suffix_def)

lemma many_files_found:
  "files_to_process_of (flat_env many_files) (u ''/R'') [u ''.txt''] =
     Inr (map (\<lambda>f. u ''/R'' @ [47] @ fst f) many_files)"
proof -
  have "filter (\<lambda>filename. endswith filename [u ''.txt'']) (map fst many_files) = map fst many_files"
    unfolding many_files_def by (simp add: filter_id_conv endswith_txt del: upt_Suc)
  then show ?thesis
    by (simp add: files_to_process_of_def flat_env_def comp_def)
qed

lemma many_files_length: "length many_files = 101"
  by (simp add: many_files_def)

text \<open>
  C10. Every progress value of every run is the sentinel \<open>-1\<close> or lies in \<open>[0, 100]\<close>.
  When more than 100 files match and the output file can be opened, the first progress
  event is \<open>0\<close>, although it is emitted for the first file; for 101 files it is
  \<open>int(1 / 101 * 100) = 0\<close>.
\<close>

theorem progress_value_in_range:
  "(\<forall>v \<in> set (progress_events (trace (snd
        (run env root_dir output_file extensions_str before)))).
      v = - 1 \<or> (0 \<le> v \<and> v \<le> 100)) \<and>
   (isdir env root_dir \<and> parse_extensions extensions_str = Some target_extensions \<and>
    files_to_process_of env root_dir target_extensions = Inr files \<and>
    100 < length files \<and>
    open_w env output_file = None \<longrightarrow>
      hd (progress_events (trace (snd
        (run env root_dir output_file extensions_str before)))) = 0) \<and>
   progress_value 1 101 = Inr 0"
proof -
  let ?ps = "progress_events (trace (snd (run env root_dir output_file extensions_str before)))"
  have a: "\<forall>v \<in> set ?ps. v = - 1 \<or> (0 \<le> v \<and> v \<le> 100)"
  proof -
    consider "?ps = []" | "?ps = [- 1]" | "?ps = [100]"
      | k qs n where "0 < n" "k \<le> n" "map Inr qs = loop_progress n 0 k"
          "?ps = qs @ [- 1] \<or> ?ps = qs @ [100]"
      using run_progress_cases[of env root_dir output_file extensions_str before] by blast
    then show ?thesis
    proof cases
      case 1 then show ?thesis by simp
    next
      case 2 then show ?thesis by simp
    next
      case 3 then show ?thesis by simp
    next
      case 4
      then show ?thesis using loop_progress_props(2)[OF 4(1,2,3)] by auto
    qed
  qed
  have b: "hd ?ps = 0"
    if h: "isdir env root_dir" "parse_extensions extensions_str = Some target_extensions"
      "files_to_process_of env root_dir target_extensions = Inr files"
      "100 < length files"
      "open_w env output_file = None"
  proof -
    let ?files = "files"
    have ne: "?files \<noteq> []" using h(4) by auto
    from run_progress_shape[OF h(1,2,3) ne, of output_file before] h(5)
    obtain k qs where k: "0 < k" "k \<le> length ?files" "map Inr qs = loop_progress (length ?files) 0 k"
      "?ps = qs @ [- 1] \<or> ?ps = qs @ [100]"
      by auto
    have n: "0 < length ?files" using ne by simp
    have "qs \<noteq> []" using loop_progress_nth(1)[OF k(3)] k(1) by auto
    moreover have "hd qs = 0" using loop_progress_props(4)[OF n k(2,3) k(1) h(4)] .
    ultimately show ?thesis using k(4) by auto
  qed
  have c: "progress_value 1 101 = Inr 0" by (rule progress_value_first_zero) simp
  show ?thesis using a b c by blast
qed

theorem progress_value_in_range_witness:
  "isdir (flat_env many_files) (u ''/R'') \<and>
   parse_extensions (u ''txt'') = Some [u ''.txt''] \<and>
   files_to_process_of (flat_env many_files) (u ''/R'') [u ''.txt''] =
     Inr (map (\<lambda>f. u ''/R'' @ [47] @ fst f) many_files) \<and>
   100 < length (map (\<lambda>f. u ''/R'' @ [47] @ fst f) many_files) \<and>
   open_w (flat_env many_files) (u ''/out.txt'') = None \<and>
   hd (progress_events (trace (snd
     (run (flat_env many_files) (u ''/R'') (u ''/out.txt'') (u ''txt'') None)))) = 0"
proof -
  have h1: "isdir (flat_env many_files) (u ''/R'')" by (simp add: flat_env_def)
  have h3: "100 < length (map (\<lambda>f. u ''/R'' @ [47] @ fst f) many_files)"
    by (simp add: many_files_length)
  have h4: "open_w (flat_env many_files) (u ''/out.txt'') = None" by (simp add: flat_env_def)
  show ?thesis
    using h1 parse_txt many_files_found h3 h4
      progress_value_in_range [of "flat_env many_files" "u ''/R''" "u ''/out.txt''" "u ''txt''"
        None "[u ''.txt'']" "map (\<lambda>f. u ''/R'' @ [47] @ fst f) many_files"]
    by blast
qed

end
